theory Spec2Isabelle
  imports Main "HOL-Library.AList" "HOL-Library.Char_ord" "HOL-Library.List_Lexorder"
begin

section \<open>Objects of the store\<close>

text \<open>
  A content address is a string. The addresses the History Walker keeps in its
  visited-set are the results of \<^verbatim>\<open>new CID(..).toBaseEncodedString()\<close>.

  A commit, as \<^verbatim>\<open>GitCommit\<close> holds it: its own address \<^verbatim>\<open>cid\<close>, the addresses
  \<^verbatim>\<open>parents.map(p => p.cid)\<close> in the order of the commit object, and the number
  \<^verbatim>\<open>committer.moment.valueOf()\<close>.
\<close>

type_synonym address = string

text \<open>
  A string of the source is the list of its code units, each a \<^typ>\<open>char\<close>; strings are
  compared as the source compares them with \<^verbatim>\<open><\<close>, code unit by code unit and a
  proper prefix first, which is the order of \<^typ>\<open>string\<close> here.
\<close>

datatype commit = Commit (cid: address) (parents: "address list") (committer: int)

text \<open>
  Modelled from the spec: an entry of a tree, an object the store creates. The spec's
  data model gives it a name, a content address and a type discriminator read by a
  capability check, and a file an operation that fetches its content; these are the
  members the source reads: \<^verbatim>\<open>name\<close>, \<^verbatim>\<open>cid\<close>, \<^verbatim>\<open>isDir()\<close>, \<^verbatim>\<open>fetchContents()\<close>.
  A tree is the array \<^verbatim>\<open>files\<close> of its entries.
\<close>

datatype entry = Entry (name: string) (ecid: address) (isDir: bool)

datatype tree = Tree (files: "entry list")

text \<open>
  What an engine does that its caller can see: the calls it makes to the store
  (\<^verbatim>\<open>repo.getObject\<close>, \<^verbatim>\<open>fetchContents\<close>) and the callbacks it invokes, in the
  order they happen. \<open>'u\<close> is what \<^verbatim>\<open>onUpdate\<close> receives.
\<close>

datatype 'u event =
    GetObject address
  | FetchContents entry
  | OnUpdate 'u
  | OnComplete

section \<open>The cancellable task\<close>

text \<open>
  \<^verbatim>\<open>class Fetcher\<close>: the flag \<^verbatim>\<open>running\<close>. The field \<open>trace\<close> is the log of
  events, kept beside the flag; the source has no such field.
\<close>

record 'u Fetcher =
  running :: bool
  trace :: "'u event list"

definition cancel :: "('u, 'a) Fetcher_scheme \<Rightarrow> ('u, 'a) Fetcher_scheme" where
  "cancel f = f\<lparr>running := False\<rparr>"

text \<open>
  What happens to a started fetcher: the caller cancels it, or one of its pending
  promises settles and the continuation waiting for it runs to its next
  suspension. \<open>Settle i\<close> names the pending promise by its position.
\<close>

datatype action = Cancel | Settle nat

text \<open>The arguments of the \<^verbatim>\<open>onUpdate\<close> calls, and the number of \<^verbatim>\<open>onComplete\<close> calls.\<close>

fun updates :: "'u event list \<Rightarrow> 'u list" where
  "updates [] = []"
| "updates (OnUpdate u # es) = u # updates es"
| "updates (_ # es) = updates es"

fun completions :: "'u event list \<Rightarrow> nat" where
  "completions [] = 0"
| "completions (OnComplete # es) = Suc (completions es)"
| "completions (_ # es) = completions es"

section \<open>The History Walker\<close>

text \<open>
  The promise that \<^verbatim>\<open>run()\<close> returned: waiting for the root object, waiting for
  \<^verbatim>\<open>Promise.all\<close> of a batch of parent addresses, fulfilled, or rejected.
  \<open>NotStarted\<close> is the fetcher as the constructor leaves it.
\<close>

datatype pending =
    NotStarted
  | AwaitRoot
  | AwaitParents "address list"
  | Fulfilled
  | Rejected

text \<open>
  The fields of \<^verbatim>\<open>RecursiveCommitFetcher\<close>; \<open>root\<close> is its \<^verbatim>\<open>cid\<close>, and \<open>pending\<close> is
  not a field of the source. The object \<^verbatim>\<open>fetched\<close> is read only as
  \<^verbatim>\<open>this.fetched[c]\<close> for a base-encoded address \<open>c\<close>, which is never the name of a
  member of \<^verbatim>\<open>Object.prototype\<close>: it is the set of the keys assigned.
\<close>

record RecursiveCommitFetcher = "commit list Fetcher" +
  root :: address
  countRequired :: int
  count :: nat
  fetched :: "address set"
  queue :: "commit list"
  commits :: "commit list"
  pending :: pending

definition constructor :: "address \<Rightarrow> int \<Rightarrow> RecursiveCommitFetcher" where
  "constructor a n =
     \<lparr>running = False, trace = [], root = a, countRequired = n, count = 0,
      fetched = {}, queue = [], commits = [], pending = NotStarted\<rparr>"

text \<open>\<^verbatim>\<open>xs.slice(0, e)\<close> for an integer \<open>e\<close>: a negative \<open>e\<close> counts from the end.\<close>

definition slice0 :: "int \<Rightarrow> 'a list \<Rightarrow> 'a list" where
  "slice0 e xs = (if e < 0 then take (nat (int (length xs) + e)) xs else take (nat e) xs)"

text \<open>
  \<^verbatim>\<open>sort((a, b) => b.committer.moment.valueOf() - a.committer.moment.valueOf())\<close>:
  the latest first, commits of equal time in the order they had.
\<close>

definition newest_first :: "commit list \<Rightarrow> commit list" where
  "newest_first cs = sort_key (\<lambda>c. - committer c) cs"

text \<open>\<^verbatim>\<open>complete()\<close>: cancel, then the completion callback.\<close>

definition complete :: "RecursiveCommitFetcher \<Rightarrow> RecursiveCommitFetcher" where
  "complete w = (let w1 = cancel w in w1\<lparr>trace := trace w1 @ [OnComplete]\<rparr>)"

text \<open>
  The promise of \<^verbatim>\<open>run()\<close> is fulfilled: the handler that \<^verbatim>\<open>start()\<close> chained to it
  clears the flag.
\<close>

definition fulfil :: "RecursiveCommitFetcher \<Rightarrow> RecursiveCommitFetcher" where
  "fulfil w = w\<lparr>running := False, pending := Fulfilled\<rparr>"

text \<open>
  \<^verbatim>\<open>processCommit(commit)\<close> from its entry to the point where it returns or
  suspends at \<^verbatim>\<open>await Promise.all(parentCids.map(this.repo.getObject))\<close>.
\<close>

definition processCommit :: "RecursiveCommitFetcher \<Rightarrow> commit \<Rightarrow> RecursiveCommitFetcher" where
  "processCommit w c =
     (if \<not> running w then fulfil w
      else
        let cs = commits w @ [c];
            w1 = w\<lparr>count := count w + 1, commits := cs\<rparr>;
            w2 = w1\<lparr>trace := trace w1 @
                   [OnUpdate (if countRequired w1 = - 1 then cs else slice0 (countRequired w1) cs)]\<rparr>
        in if countRequired w2 \<noteq> - 1 \<and> countRequired w2 \<le> int (count w2)
           then fulfil (complete w2)
           else
             let parentCids = filter (\<lambda>a. a \<notin> fetched w2) (parents c)
             in w2\<lparr>fetched := fetched w2 \<union> set parentCids,
                   trace := trace w2 @ map GetObject parentCids,
                   pending := AwaitParents parentCids\<rparr>)"

text \<open>\<^verbatim>\<open>start()\<close> and \<^verbatim>\<open>run()\<close> up to the pending request for the root.\<close>

definition start :: "RecursiveCommitFetcher \<Rightarrow> RecursiveCommitFetcher" where
  "start w =
     w\<lparr>running := True, fetched := insert (root w) (fetched w),
       trace := trace w @ [GetObject (root w)], pending := AwaitRoot\<rparr>"

text \<open>
  The pending promise settles and its continuation runs to the next suspension.
  The store \<open>repo\<close> answers an address with an object, or rejects (\<open>None\<close>);
  \<^verbatim>\<open>Promise.all\<close> rejects when one of its requests does. After the parents have
  arrived the continuation is the rest of \<^verbatim>\<open>processCommit\<close>: sort the queue,
  complete when it is empty, else shift the newest and process it.
\<close>

definition resume :: "(address \<Rightarrow> commit option) \<Rightarrow> RecursiveCommitFetcher \<Rightarrow> RecursiveCommitFetcher" where
  "resume repo w =
     (case pending w of
        AwaitRoot \<Rightarrow>
          (case repo (root w) of
             None \<Rightarrow> w\<lparr>pending := Rejected\<rparr>
           | Some c \<Rightarrow> processCommit w c)
      | AwaitParents as \<Rightarrow>
          (case those (map repo as) of
             None \<Rightarrow> w\<lparr>pending := Rejected\<rparr>
           | Some ps \<Rightarrow>
               (case newest_first (queue w @ ps) of
                  [] \<Rightarrow> fulfil (complete (w\<lparr>queue := []\<rparr>))
                | newest # rest \<Rightarrow> processCommit (w\<lparr>queue := rest\<rparr>) newest))
      | _ \<Rightarrow> w)"

text \<open>
  The History Walker has one pending promise at a time. A run is
  \<^verbatim>\<open>fetchCommitAndParents\<close> followed by any sequence of actions.
\<close>

fun act :: "(address \<Rightarrow> commit option) \<Rightarrow> RecursiveCommitFetcher \<Rightarrow> action \<Rightarrow> RecursiveCommitFetcher" where
  "act repo w Cancel = cancel w"
| "act repo w (Settle i) = (if i = 0 then resume repo w else w)"

definition fetchCommitAndParents ::
  "(address \<Rightarrow> commit option) \<Rightarrow> address \<Rightarrow> int \<Rightarrow> action list \<Rightarrow> RecursiveCommitFetcher" where
  "fetchCommitAndParents repo a n acts = foldl (act repo) (start (constructor a n)) acts"

section \<open>Plain objects used as dictionaries\<close>

text \<open>
  \<^verbatim>\<open>getChanges\<close> keeps its tables in object literals \<^verbatim>\<open>{}\<close>. Such an object has
  own properties, here the list of (key, value) in the order the keys were created,
  and behind them the members of \<^verbatim>\<open>Object.prototype\<close>, which a read \<^verbatim>\<open>o[k]\<close> of a
  key that is not an own property answers.
\<close>

definition object_prototype :: "string list" where
  "object_prototype =
     [''constructor'', ''__defineGetter__'', ''__defineSetter__'', ''hasOwnProperty'',
      ''__lookupGetter__'', ''__lookupSetter__'', ''isPrototypeOf'',
      ''propertyIsEnumerable'', ''toString'', ''valueOf'', ''__proto__'',
      ''toLocaleString'']"

text \<open>
  \<^verbatim>\<open>Object.keys\<close> and \<^verbatim>\<open>Object.values\<close> enumerate the own properties whose key is an
  array index (a decimal numeral without leading zero, below \<open>2^32 - 1\<close>) first, in
  ascending numeric order, then the others in the order of their creation.
\<close>

definition decimal :: "string \<Rightarrow> int" where
  "decimal k = foldl (\<lambda>n c. 10 * n + (of_char c - 48)) 0 k"

definition array_index :: "string \<Rightarrow> bool" where
  "array_index k \<longleftrightarrow>
     k \<noteq> [] \<and> list_all (\<lambda>c. c \<in> set ''0123456789'') k \<and>
     (if hd k = CHR ''0'' then k = ''0'' else True) \<and> decimal k < 4294967295"

definition enumerate_own :: "(string \<times> 'v) list \<Rightarrow> (string \<times> 'v) list" where
  "enumerate_own ps =
     sort_key (\<lambda>p. decimal (fst p)) (filter (\<lambda>p. array_index (fst p)) ps) @
     filter (\<lambda>p. \<not> array_index (fst p)) ps"

text \<open>
  The object \<^verbatim>\<open>byName\<close> builds. The assignment \<^verbatim>\<open>o[i.name] = i\<close> creates an own
  property or overwrites the one of that key, in its place; for the key
  \<^verbatim>\<open>__proto__\<close> it instead makes the entry \<open>i\<close> the prototype of \<open>o\<close>.
\<close>

datatype table = Table (own: "(string \<times> entry) list") (prototype: "entry option")

definition byName :: "entry list \<Rightarrow> table" where
  "byName a =
     foldl (\<lambda>t i. if name i = ''__proto__'' then Table (own t) (Some i)
                   else Table (AList.update (name i) i (own t)) (prototype t))
       (Table [] None) a"

text \<open>
  What a read \<^verbatim>\<open>o[k]\<close> of such a table gives: \<^verbatim>\<open>undefined\<close>, an entry, or a value
  that is no entry (a string member of the entry installed as prototype, a function
  or object found on the prototype chain).
\<close>

datatype slot = Undefined | Ent entry | Str string | Builtin string

definition inherited :: "entry option \<Rightarrow> string \<Rightarrow> slot" where
  "inherited pr k =
     (case pr of
        None \<Rightarrow> if k \<in> set object_prototype then Builtin k else Undefined
      | Some e \<Rightarrow>
          if k = ''__proto__'' then Ent e
          else if k = ''name'' then Str (name e)
          else if k = ''cid'' then Str (ecid e)
          else if k = ''isDir'' then Builtin k
          else if k = ''fetchContents'' then Builtin k
          else if k \<in> set object_prototype then Builtin k
          else Undefined)"

definition getprop :: "table \<Rightarrow> string \<Rightarrow> slot" where
  "getprop t k = (case map_of (own t) k of Some e \<Rightarrow> Ent e | None \<Rightarrow> inherited (prototype t) k)"

text \<open>Truthiness of a slot, and its member \<^verbatim>\<open>.cid\<close> (\<open>None\<close> for \<^verbatim>\<open>undefined\<close>).\<close>

fun truthy :: "slot \<Rightarrow> bool" where
  "truthy Undefined = False"
| "truthy (Ent e) = True"
| "truthy (Str s) = (s \<noteq> [])"
| "truthy (Builtin k) = True"

fun cid_of :: "slot \<Rightarrow> address option" where
  "cid_of (Ent e) = Some (ecid e)"
| "cid_of s = None"

section \<open>The changeset\<close>

text \<open>
  An element of the changeset, \<^verbatim>\<open>{name, change: [base side, comparison side]}\<close>. A
  value of \<^verbatim>\<open>fileset\<close> is such an element or, where \<^verbatim>\<open>fileset[p] || ..\<close> found a member
  of \<^verbatim>\<open>Object.prototype\<close>, that member.
\<close>

datatype change = Change (cname: string) (base_side: slot) (comp_side: slot)

datatype fileset_value = Chg change | Member string

definition fileset_get :: "(string \<times> fileset_value) list \<Rightarrow> string \<Rightarrow> fileset_value option" where
  "fileset_get fs k =
     (case map_of fs k of
        Some v \<Rightarrow> Some v
      | None \<Rightarrow> if k \<in> set object_prototype then Some (Member k) else None)"

text \<open>The test of the final \<^verbatim>\<open>filter\<close>.\<close>

fun differs :: "change \<Rightarrow> bool" where
  "differs (Change n s0 s1) =
     (if truthy s0 then (if truthy s1 then cid_of s0 \<noteq> cid_of s1 else True) else True)"

text \<open>
  The \<^verbatim>\<open>filter\<close> over \<^verbatim>\<open>Object.values(fileset)\<close>; reading \<^verbatim>\<open>c.change[0]\<close> of a value
  that is no changeset element throws a \<^verbatim>\<open>TypeError\<close>, which is \<open>None\<close>.
\<close>

fun keep :: "fileset_value list \<Rightarrow> change list option" where
  "keep [] = Some []"
| "keep (Member k # vs) = None"
| "keep (Chg c # vs) = map_option (\<lambda>r. if differs c then c # r else r) (keep vs)"

text \<open>
  \<^verbatim>\<open>getChanges(base, comp)\<close>; \<open>comp'\<close> is \<open>None\<close> where the source has \<^verbatim>\<open>undefined\<close>.
  The keys the two loops assign are own keys of a \<^verbatim>\<open>byName\<close> table, never
  \<^verbatim>\<open>__proto__\<close>, so each assignment to \<^verbatim>\<open>fileset\<close> creates or overwrites an own
  property.
\<close>

definition getChanges :: "tree \<Rightarrow> tree option \<Rightarrow> change list option" where
  "getChanges base comp' =
     (let headByName = byName (files base);
          parentByName = byName (case comp' of None \<Rightarrow> [] | Some t \<Rightarrow> files t);
          fileset1 =
            foldl (\<lambda>fs h. AList.update h
                     (Chg (Change h (getprop headByName h) (getprop parentByName h))) fs)
              [] (map fst (enumerate_own (own headByName)));
          fileset2 =
            foldl (\<lambda>fs p. AList.update p
                     (case fileset_get fs p of
                        Some v \<Rightarrow> v
                      | None \<Rightarrow> Chg (Change p Undefined (getprop parentByName p))) fs)
              fileset1 (map fst (enumerate_own (own parentByName)))
      in keep (map snd (enumerate_own fileset2)))"

section \<open>The Tree Diff Engine\<close>

text \<open>
  A slot of a diff record: what \<^verbatim>\<open>f && f.fetchContents()\<close> gave, the falsy \<open>f\<close>
  itself or the contents fetched. A diff record is \<^verbatim>\<open>{path, name, change: files}\<close>.
\<close>

datatype content = Skipped slot | Contents string

datatype diffrec = DiffRec (path: "string option") (rname: string) (file0: content) (file1: content)

text \<open>
  The promises the engine waits for: the two trees of a \<^verbatim>\<open>fetchTrees\<close> call, or the
  contents of the two sides of one change.
\<close>

datatype task =
    Trees address "address option" "string option"
  | Files "string option" string slot slot

text \<open>
  \<open>pool\<close> holds the pending promises; \<open>failed\<close> says that the promise of \<^verbatim>\<open>run()\<close>
  has been rejected. Neither is a field of the source.
\<close>

record DiffFetcher = "diffrec list Fetcher" +
  baseTree :: address
  compTree :: "address option"
  stateChanges :: "diffrec list"
  pool :: "task list"
  failed :: bool

definition DiffFetcher_constructor :: "address \<Rightarrow> address option \<Rightarrow> DiffFetcher" where
  "DiffFetcher_constructor b c =
     \<lparr>running = False, trace = [], baseTree = b, compTree = c, stateChanges = [],
      pool = [], failed = False\<rparr>"

text \<open>\<^verbatim>\<open>t2 && this.repo.getObject(t2)\<close>: no request for an absent or empty address.\<close>

fun requested :: "address option \<Rightarrow> address option" where
  "requested None = None"
| "requested (Some a) = (if a = [] then None else Some a)"

text \<open>\<^verbatim>\<open>fetchTrees(t1, t2, path)\<close> up to its first \<^verbatim>\<open>await\<close>.\<close>

definition fetchTrees :: "DiffFetcher \<Rightarrow> address \<Rightarrow> address option \<Rightarrow> string option \<Rightarrow> DiffFetcher" where
  "fetchTrees d t1 t2 p =
     (if \<not> running d then d
      else d\<lparr>trace := trace d @ GetObject t1 #
                (case requested t2 of None \<Rightarrow> [] | Some a \<Rightarrow> [GetObject a]),
             pool := pool d @ [Trees t1 t2 p]\<rparr>)"

text \<open>
  The condition \<^verbatim>\<open>c.change[0] && c.change[0].isDir() && c.change[1] && c.change[1].isDir()\<close>,
  left to right; calling \<^verbatim>\<open>isDir\<close> on a value that has no such method throws.
\<close>

datatype both_dirs = Throws | Neither | Both entry entry

fun isDirs :: "slot \<Rightarrow> slot \<Rightarrow> both_dirs" where
  "isDirs (Ent e0) (Ent e1) = (if isDir e0 then (if isDir e1 then Both e0 e1 else Neither) else Neither)"
| "isDirs (Ent e0) s1 = (if isDir e0 then (if truthy s1 then Throws else Neither) else Neither)"
| "isDirs s0 s1 = (if truthy s0 then Throws else Neither)"

text \<open>
  \<^verbatim>\<open>f && f.fetchContents()\<close> for one side: the store calls it makes, or \<open>None\<close> when
  it throws; and what the promise of that side brings once the store has answered
  (\<open>None\<close> when the store rejects).
\<close>

fun request :: "slot \<Rightarrow> diffrec list event list option" where
  "request (Ent e) = Some [FetchContents e]"
| "request s = (if truthy s then None else Some [])"

fun received :: "(entry \<Rightarrow> string option) \<Rightarrow> slot \<Rightarrow> content option" where
  "received fetchContents (Ent e) = map_option Contents (fetchContents e)"
| "received fetchContents s = Some (Skipped s)"

text \<open>\<^verbatim>\<open>(path ? path + '/' : '') + c.name\<close>\<close>

fun dirPath :: "string option \<Rightarrow> string \<Rightarrow> string" where
  "dirPath None n = n"
| "dirPath (Some p) n = (if p = [] then n else p @ ''/'' @ n)"

text \<open>
  The callback of \<^verbatim>\<open>changes.map\<close> for one change, up to its return or first
  \<^verbatim>\<open>await\<close>. An exception thrown in it rejects its promise and with it
  \<^verbatim>\<open>Promise.all\<close>, \<^verbatim>\<open>fetchTrees\<close> and \<^verbatim>\<open>run()\<close>; the callbacks of the other changes
  still run.
\<close>

definition visit :: "string option \<Rightarrow> DiffFetcher \<Rightarrow> change \<Rightarrow> DiffFetcher" where
  "visit p d c =
     (if \<not> running d then d
      else
        case isDirs (base_side c) (comp_side c) of
          Throws \<Rightarrow> d\<lparr>failed := True\<rparr>
        | Both e0 e1 \<Rightarrow> fetchTrees d (ecid e0) (Some (ecid e1)) (Some (dirPath p (cname c)))
        | Neither \<Rightarrow>
            (case request (base_side c) of
               None \<Rightarrow> d\<lparr>failed := True\<rparr>
             | Some es0 \<Rightarrow>
                 (case request (comp_side c) of
                    None \<Rightarrow> d\<lparr>trace := trace d @ es0, failed := True\<rparr>
                  | Some es1 \<Rightarrow>
                      d\<lparr>trace := trace d @ es0 @ es1,
                        pool := pool d @ [Files p (cname c) (base_side c) (comp_side c)]\<rparr>)))"

text \<open>
  \<^verbatim>\<open>sort\<close> with the comparator on \<^verbatim>\<open>name\<close>: strings compare code unit by code
  unit, a proper prefix first.
\<close>

definition by_name :: "diffrec list \<Rightarrow> diffrec list" where
  "by_name rs = sort_key rname rs"

text \<open>
  The continuation of a settled promise. For the trees: \<^verbatim>\<open>getChanges\<close>, then the
  callback of every change. For the files of a change: the record joins
  \<^verbatim>\<open>stateChanges\<close>, which is sorted again, and \<^verbatim>\<open>onUpdate\<close> is called if the engine
  is still running. A rejection of the store, or an exception, rejects \<^verbatim>\<open>run()\<close>.
\<close>

fun continue :: "(address \<Rightarrow> tree option) \<Rightarrow> (entry \<Rightarrow> string option) \<Rightarrow> DiffFetcher \<Rightarrow> task \<Rightarrow> DiffFetcher" where
  "continue getObject fetchContents d (Trees t1 t2 p) =
     (case getObject t1 of
        None \<Rightarrow> d\<lparr>failed := True\<rparr>
      | Some base \<Rightarrow>
          (case (case requested t2 of None \<Rightarrow> Some None | Some a \<Rightarrow> map_option Some (getObject a)) of
             None \<Rightarrow> d\<lparr>failed := True\<rparr>
           | Some comp' \<Rightarrow>
               (case getChanges base comp' of
                  None \<Rightarrow> d\<lparr>failed := True\<rparr>
                | Some changes \<Rightarrow> foldl (visit p) d changes)))"
| "continue getObject fetchContents d (Files p n s0 s1) =
     (case received fetchContents s0 of
        None \<Rightarrow> d\<lparr>failed := True\<rparr>
      | Some f0 \<Rightarrow>
          (case received fetchContents s1 of
             None \<Rightarrow> d\<lparr>failed := True\<rparr>
           | Some f1 \<Rightarrow>
               let d1 = d\<lparr>stateChanges := by_name (stateChanges d @ [DiffRec p n f0 f1])\<rparr>
               in if \<not> running d1 then d1
                  else d1\<lparr>trace := trace d1 @ [OnUpdate (stateChanges d1)]\<rparr>))"

text \<open>
  When nothing is pending and nothing failed, the promise of \<^verbatim>\<open>run()\<close> is
  fulfilled and the handler of \<^verbatim>\<open>start()\<close> clears the flag.
\<close>

definition settled :: "DiffFetcher \<Rightarrow> DiffFetcher" where
  "settled d = (if pool d = [] \<and> \<not> failed d then d\<lparr>running := False\<rparr> else d)"

fun diff_act :: "(address \<Rightarrow> tree option) \<Rightarrow> (entry \<Rightarrow> string option) \<Rightarrow> DiffFetcher \<Rightarrow> action \<Rightarrow> DiffFetcher" where
  "diff_act getObject fetchContents d Cancel = cancel d"
| "diff_act getObject fetchContents d (Settle i) =
     (if i < length (pool d)
      then settled (continue getObject fetchContents
             (d\<lparr>pool := take i (pool d) @ drop (Suc i) (pool d)\<rparr>) (pool d ! i))
      else d)"

text \<open>\<^verbatim>\<open>start()\<close> and \<^verbatim>\<open>run()\<close> of the diff engine, and a whole run of it.\<close>

definition DiffFetcher_start :: "DiffFetcher \<Rightarrow> DiffFetcher" where
  "DiffFetcher_start d = fetchTrees (d\<lparr>running := True\<rparr>) (baseTree d) (compTree d) None"

definition fetchDiff ::
  "(address \<Rightarrow> tree option) \<Rightarrow> (entry \<Rightarrow> string option) \<Rightarrow> address \<Rightarrow> address option \<Rightarrow>
   action list \<Rightarrow> DiffFetcher" where
  "fetchDiff getObject fetchContents b c acts =
     foldl (diff_act getObject fetchContents) (DiffFetcher_start (DiffFetcher_constructor b c)) acts"

section \<open>Stores used as examples\<close>

text \<open>
  The diamond of the spec's scenario: \<open>A\<close> (parents \<open>B\<close>, \<open>C\<close>; time 100), \<open>B\<close>
  (parent \<open>D\<close>; 90), \<open>C\<close> (parent \<open>D\<close>; 95), \<open>D\<close> (no parent; 80).
\<close>

definition diamond :: "address \<Rightarrow> commit option" where
  "diamond a =
     (if a = ''A'' then Some (Commit ''A'' [''B'', ''C''] 100)
      else if a = ''B'' then Some (Commit ''B'' [''D''] 90)
      else if a = ''C'' then Some (Commit ''C'' [''D''] 95)
      else if a = ''D'' then Some (Commit ''D'' [] 80)
      else None)"

text \<open>A commit object whose parent lines name the same commit twice.\<close>

definition twice :: "address \<Rightarrow> commit option" where
  "twice a =
     (if a = ''A'' then Some (Commit ''A'' [''D'', ''D''] 100)
      else if a = ''D'' then Some (Commit ''D'' [] 80)
      else None)"


text \<open>A history whose commit \<open>A\<close> names a parent \<open>X\<close> that the store cannot resolve.\<close>

definition torn :: "address \<Rightarrow> commit option" where
  "torn a =
     (if a = ''A'' then Some (Commit ''A'' [''B'', ''X''] 100)
      else if a = ''B'' then Some (Commit ''B'' [] 90)
      else None)"

text \<open>
  The trees of the spec's scenario: the base tree holds \<^verbatim>\<open>foo.txt\<close> and the directory
  \<^verbatim>\<open>bar\<close>, the comparison tree the same file and another \<^verbatim>\<open>bar\<close>; the two
  directories differ in \<^verbatim>\<open>x\<close>, and each has a file the other lacks. \<open>blobs\<close> has
  the contents of every file, \<open>blobs_but_a1\<close> rejects the request for \<^verbatim>\<open>a1\<close>.
\<close>

definition snapshots :: "address \<Rightarrow> tree option" where
  "snapshots a =
     (if a = ''base'' then Some (Tree [Entry ''foo.txt'' ''addr1'' False, Entry ''bar'' ''addr2'' True])
      else if a = ''comp'' then Some (Tree [Entry ''foo.txt'' ''addr1'' False, Entry ''bar'' ''addr3'' True])
      else if a = ''addr2'' then Some (Tree [Entry ''x'' ''x1'' False, Entry ''a'' ''a1'' False])
      else if a = ''addr3'' then Some (Tree [Entry ''x'' ''x2'' False, Entry ''b'' ''b1'' False])
      else None)"

definition blobs :: "entry \<Rightarrow> string option" where
  "blobs e = Some (''contents of '' @ ecid e)"

definition blobs_but_a1 :: "entry \<Rightarrow> string option" where
  "blobs_but_a1 e = (if ecid e = ''a1'' then None else Some (''contents of '' @ ecid e))"

section \<open>Invariants of the History Walker\<close>

text \<open>
  \<^verbatim>\<open>onComplete\<close> has been called only if the promise of \<^verbatim>\<open>run()\<close> is fulfilled, and
  then the flag is false and the call is the last event.
\<close>

definition complete_once :: "RecursiveCommitFetcher \<Rightarrow> bool" where
  "complete_once w \<longleftrightarrow>
     (if pending w = Fulfilled
      then \<not> running w \<and> (OnComplete \<in> set (trace w) \<longrightarrow>
             (\<exists>es. trace w = es @ [OnComplete] \<and> OnComplete \<notin> set es))
      else OnComplete \<notin> set (trace w))"

text \<open>
  The addresses reachable from \<open>r\<close> along parent links, in the store \<open>repo\<close>.
\<close>

inductive_set reachable :: "(address \<Rightarrow> commit option) \<Rightarrow> address \<Rightarrow> address set"
  for repo :: "address \<Rightarrow> commit option" and r :: address where
  root: "r \<in> reachable repo r"
| parent: "a \<in> reachable repo r \<Longrightarrow> repo a = Some c \<Longrightarrow> b \<in> set (parents c) \<Longrightarrow> b \<in> reachable repo r"

text \<open>
  Every reachable address resolves, and the commit the store gives for an address
  carries that address.
\<close>

definition resolves :: "(address \<Rightarrow> commit option) \<Rightarrow> address \<Rightarrow> bool" where
  "resolves repo r \<longleftrightarrow> (\<forall>a\<in>reachable repo r. \<exists>c. repo a = Some c \<and> cid c = a)"

text \<open>Sorted in descending order of committer timestamp.\<close>

definition descending :: "commit list \<Rightarrow> bool" where
  "descending cs = sorted_wrt (\<lambda>x y. committer y \<le> committer x) cs"

text \<open>No reachable commit is older than one of its parents.\<close>

definition parents_older :: "(address \<Rightarrow> commit option) \<Rightarrow> address \<Rightarrow> bool" where
  "parents_older repo r \<longleftrightarrow>
     (\<forall>a\<in>reachable repo r. \<forall>c b p. repo a = Some c \<longrightarrow> b \<in> set (parents c) \<longrightarrow>
        repo b = Some p \<longrightarrow> committer p \<le> committer c)"

text \<open>
  The commits emitted so far are in descending order and none of them is older than
  a commit waiting in the queue.
\<close>

definition newest_visited :: "RecursiveCommitFetcher \<Rightarrow> bool" where
  "newest_visited w \<longleftrightarrow>
     descending (commits w) \<and>
     (\<forall>x\<in>set (commits w). \<forall>q\<in>set (queue w). committer q \<le> committer x)"

text \<open>No reachable commit names the same parent twice.\<close>

definition no_repeats :: "(address \<Rightarrow> commit option) \<Rightarrow> address \<Rightarrow> bool" where
  "no_repeats repo r \<longleftrightarrow>
     (\<forall>a\<in>reachable repo r. \<forall>c. repo a = Some c \<longrightarrow> distinct (parents c))"

text \<open>The addresses the store was asked for, in the order of the calls.\<close>

fun requests :: "'u event list \<Rightarrow> address list" where
  "requests [] = []"
| "requests (GetObject a # es) = a # requests es"
| "requests (_ # es) = requests es"

text \<open>
  No address occurs twice among the emitted commits, the queue and the parents
  awaited, and none was requested from the store twice; the addresses requested are
  the visited-set.
\<close>

definition once :: "RecursiveCommitFetcher \<Rightarrow> bool" where
  "once w \<longleftrightarrow>
     distinct (map cid (commits w) @ map cid (queue w) @
               (case pending w of AwaitParents as \<Rightarrow> as | _ \<Rightarrow> [])) \<and>
     distinct (requests (trace w)) \<and> set (requests (trace w)) = fetched w"

text \<open>
  The state in which \<^verbatim>\<open>processCommit\<close> is entered with commit \<open>c\<close> during a run that
  nobody cancelled: the visited-set is the addresses of the emitted commits, of the
  queue and of \<open>c\<close>; the parents of every emitted commit are in it; all of it is
  reachable from the root.
\<close>

definition visiting :: "(address \<Rightarrow> commit option) \<Rightarrow> RecursiveCommitFetcher \<Rightarrow> commit \<Rightarrow> bool" where
  "visiting repo w c \<longleftrightarrow>
     running w \<and> count w = length (commits w) \<and> repo (cid c) = Some c \<and>
     (\<forall>x\<in>set (commits w) \<union> set (queue w). repo (cid x) = Some x) \<and>
     fetched w = cid ` set (commits w) \<union> cid ` set (queue w) \<union> {cid c} \<and>
     root w \<in> cid ` set (commits w) \<union> {cid c} \<and>
     (\<forall>x\<in>set (commits w). set (parents x) \<subseteq> fetched w) \<and>
     fetched w \<subseteq> reachable repo (root w) \<and>
     completions (trace w) = 0"

text \<open>The same for a suspended walker, between two settled promises.\<close>

definition walking :: "(address \<Rightarrow> commit option) \<Rightarrow> RecursiveCommitFetcher \<Rightarrow> bool" where
  "walking repo w \<longleftrightarrow>
     running w \<and> count w = length (commits w) \<and>
     (\<forall>x\<in>set (commits w) \<union> set (queue w). repo (cid x) = Some x) \<and>
     completions (trace w) = 0 \<and>
     (case pending w of
        AwaitRoot \<Rightarrow> commits w = [] \<and> queue w = [] \<and> fetched w = {root w}
      | AwaitParents as \<Rightarrow>
          commits w \<noteq> [] \<and> set as \<subseteq> set (parents (last (commits w))) \<and>
          fetched w = cid ` set (commits w) \<union> cid ` set (queue w) \<union> set as \<and>
          root w \<in> cid ` set (commits w) \<and>
          (\<forall>x\<in>set (commits w). set (parents x) \<subseteq> fetched w) \<and>
          fetched w \<subseteq> reachable repo (root w) \<and>
          updates (trace w) \<noteq> [] \<and>
          last (updates (trace w)) =
            (if countRequired w = - 1 then commits w else slice0 (countRequired w) (commits w))
      | _ \<Rightarrow> False)"

section \<open>Invariants of the Tree Diff Engine\<close>

text \<open>
  The result list, and every list that was passed to \<^verbatim>\<open>onUpdate\<close>, is sorted by
  name.
\<close>

definition name_sorted :: "DiffFetcher \<Rightarrow> bool" where
  "name_sorted d \<longleftrightarrow>
     sorted (map rname (stateChanges d)) \<and>
     list_all (\<lambda>u. sorted (map rname u)) (updates (trace d))"

section \<open>Rejections of the store\<close>

text \<open>
  The store rejects one of the requests a pending promise of the diff engine waits
  for; the store rejects one of the requests the pending promise of the walker
  waits for.
\<close>

fun rejects :: "(address \<Rightarrow> tree option) \<Rightarrow> (entry \<Rightarrow> string option) \<Rightarrow> task \<Rightarrow> bool" where
  "rejects getObject fetchContents (Trees t1 t2 p) =
     (if getObject t1 = None then True
      else case requested t2 of None \<Rightarrow> False | Some a \<Rightarrow> getObject a = None)"
| "rejects getObject fetchContents (Files p n s0 s1) =
     (if received fetchContents s0 = None then True else received fetchContents s1 = None)"

definition walker_rejects :: "(address \<Rightarrow> commit option) \<Rightarrow> RecursiveCommitFetcher \<Rightarrow> bool" where
  "walker_rejects repo w =
     (case pending w of
        AwaitRoot \<Rightarrow> repo (root w) = None
      | AwaitParents as \<Rightarrow> list_ex (\<lambda>a. repo a = None) as
      | _ \<Rightarrow> False)"

section \<open>Names of a tree\<close>

text \<open>
  The last entry of a tree with a given name, which is the one \<^verbatim>\<open>byName\<close> keeps; the
  side of a change it gives; and the trees none of whose entries is named like a
  member of \<^verbatim>\<open>Object.prototype\<close>.
\<close>

definition entry_named :: "entry list \<Rightarrow> string \<Rightarrow> entry option" where
  "entry_named es n = find (\<lambda>e. name e = n) (rev es)"

definition side :: "entry list \<Rightarrow> string \<Rightarrow> slot" where
  "side es n = (case entry_named es n of None \<Rightarrow> Undefined | Some e \<Rightarrow> Ent e)"

definition plain_names :: "entry list \<Rightarrow> bool" where
  "plain_names es = list_all (\<lambda>e. name e \<notin> set object_prototype) es"

section \<open>Evaluating the definitions\<close>

lemmas walker_defs =
  fetchCommitAndParents_def start_def constructor_def resume_def processCommit_def
  newest_first_def fulfil_def complete_def cancel_def Let_def slice0_def

lemma cancel_idle: "\<not> running w \<Longrightarrow> cancel w = w"
  by (cases w) (simp add: cancel_def)

text \<open>Once the promise of \<^verbatim>\<open>run()\<close> is fulfilled nothing changes the fetcher.\<close>

lemma fulfilled_stays:
  "pending w = Fulfilled \<Longrightarrow> \<not> running w \<Longrightarrow> foldl (act repo) w acts = w"
proof (induction acts)
  case Nil
  then show ?case by simp
next
  case (Cons x xs)
  then show ?case by (cases x) (simp_all add: resume_def cancel_idle)
qed

section \<open>The History Walker on concrete histories\<close>

text \<open>
  C8. On the diamond with root \<open>A\<close> and \<open>countRequired = -1\<close> the walker emits
  \<open>A\<close>, \<open>C\<close>, \<open>B\<close>, \<open>D\<close> in this order; \<open>D\<close>, reachable through \<open>B\<close> and through
  \<open>C\<close>, is requested from the store once and processed once, and the run ends
  with one \<^verbatim>\<open>onComplete\<close>.
\<close>

theorem diamond_order:
  "trace (fetchCommitAndParents diamond ''A'' (- 1) [Settle 0, Settle 0, Settle 0, Settle 0, Settle 0]) =
     [GetObject ''A'',
      OnUpdate [Commit ''A'' [''B'', ''C''] 100],
      GetObject ''B'', GetObject ''C'',
      OnUpdate [Commit ''A'' [''B'', ''C''] 100, Commit ''C'' [''D''] 95],
      GetObject ''D'',
      OnUpdate [Commit ''A'' [''B'', ''C''] 100, Commit ''C'' [''D''] 95, Commit ''B'' [''D''] 90],
      OnUpdate [Commit ''A'' [''B'', ''C''] 100, Commit ''C'' [''D''] 95, Commit ''B'' [''D''] 90,
                Commit ''D'' [] 80],
      OnComplete]"
  by (simp add: walker_defs diamond_def)

text \<open>
  C9. With \<open>countRequired = 0\<close> and a root that resolves, the walker requests the
  root, processes it, calls \<^verbatim>\<open>onUpdate\<close> once with the empty sequence and
  \<^verbatim>\<open>onComplete\<close> once, requests no parent, and whatever happens afterwards adds
  nothing.
\<close>

theorem zero_required:
  assumes "repo a = Some c"
  shows "trace (fetchCommitAndParents repo a 0 (Settle 0 # acts)) =
           [GetObject a, OnUpdate [], OnComplete]
     \<and> commits (fetchCommitAndParents repo a 0 (Settle 0 # acts)) = [c]
     \<and> pending (fetchCommitAndParents repo a 0 (Settle 0 # acts)) = Fulfilled"
proof -
  let ?w = "fetchCommitAndParents repo a 0 [Settle 0]"
  have 1: "pending ?w = Fulfilled" "\<not> running ?w"
    "trace ?w = [GetObject a, OnUpdate [], OnComplete]" "commits ?w = [c]"
    using assms by (simp_all add: walker_defs)
  have "fetchCommitAndParents repo a 0 (Settle 0 # acts) = foldl (act repo) ?w acts"
    by (simp add: fetchCommitAndParents_def)
  with fulfilled_stays[OF 1(1,2)] 1 show ?thesis by simp
qed

theorem zero_required_witness:
  "diamond ''A'' = Some (Commit ''A'' [''B'', ''C''] 100) \<and>
   trace (fetchCommitAndParents diamond ''A'' 0 [Settle 0, Settle 0, Cancel]) =
     [GetObject ''A'', OnUpdate [], OnComplete]"
proof -
  have h: "diamond ''A'' = Some (Commit ''A'' [''B'', ''C''] 100)"
    by (simp add: diamond_def)
  show ?thesis
    using h zero_required[of diamond "''A''" _ "[Settle 0, Cancel]"] by simp
qed

text \<open>
  C2, at its failing input. The root \<open>D\<close> has no parent. The caller cancels after
  the first \<^verbatim>\<open>onUpdate\<close>, while \<^verbatim>\<open>processCommit\<close> is suspended at its \<^verbatim>\<open>await\<close>;
  the flag is then false. The continuation finds the queue empty and calls
  \<^verbatim>\<open>complete()\<close> without looking at the flag: \<^verbatim>\<open>onComplete\<close> follows the cancel.
\<close>

theorem complete_after_cancel:
  "running (fetchCommitAndParents diamond ''D'' (- 1) [Settle 0, Cancel]) = False \<and>
   trace (fetchCommitAndParents diamond ''D'' (- 1) [Settle 0, Cancel]) =
     [GetObject ''D'', OnUpdate [Commit ''D'' [] 80]] \<and>
   trace (fetchCommitAndParents diamond ''D'' (- 1) [Settle 0, Cancel, Settle 0]) =
     [GetObject ''D'', OnUpdate [Commit ''D'' [] 80], OnComplete]"
  by (simp add: walker_defs diamond_def)

text \<open>
  C3, at its failing input. \<open>A\<close> names its parent \<open>D\<close> twice. Both occurrences
  pass the filter on the visited-set, which is marked only after the filter; the
  final sequence holds \<open>D\<close> twice.
\<close>

theorem repeated_parent_emitted_twice:
  "updates (trace (fetchCommitAndParents twice ''A'' (- 1) [Settle 0, Settle 0, Settle 0, Settle 0])) =
     [[Commit ''A'' [''D'', ''D''] 100],
      [Commit ''A'' [''D'', ''D''] 100, Commit ''D'' [] 80],
      [Commit ''A'' [''D'', ''D''] 100, Commit ''D'' [] 80, Commit ''D'' [] 80]] \<and>
   completions (trace (fetchCommitAndParents twice ''A'' (- 1) [Settle 0, Settle 0, Settle 0, Settle 0])) = 1"
  by (simp add: walker_defs twice_def)

text \<open>
  C4, at its failing input. For the same commit the store is asked for \<open>D\<close>
  twice, and after the first copy of \<open>D\<close> has been processed the second is still
  in the queue.
\<close>

theorem repeated_parent_resolved_twice:
  "trace (fetchCommitAndParents twice ''A'' (- 1) [Settle 0]) =
     [GetObject ''A'', OnUpdate [Commit ''A'' [''D'', ''D''] 100],
      GetObject ''D'', GetObject ''D''] \<and>
   queue (fetchCommitAndParents twice ''A'' (- 1) [Settle 0, Settle 0]) = [Commit ''D'' [] 80] \<and>
   commits (fetchCommitAndParents twice ''A'' (- 1) [Settle 0, Settle 0]) =
     [Commit ''A'' [''D'', ''D''] 100, Commit ''D'' [] 80]"
  by (simp add: walker_defs twice_def)

section \<open>The changeset on concrete trees\<close>

text \<open>
  C5, at its failing input. A file named \<^verbatim>\<open>constructor\<close> that only the base tree
  has: the read \<^verbatim>\<open>parentByName[h]\<close> finds \<^verbatim>\<open>Object.prototype.constructor\<close>, so the
  comparison side of the change is not \<^verbatim>\<open>undefined\<close>. When only the comparison
  tree has it, \<^verbatim>\<open>fileset[p] || ..\<close> keeps that function and the filter throws.
\<close>

theorem prototype_member_name:
  "getChanges (Tree [Entry ''constructor'' ''c1'' False]) None =
     Some [Change ''constructor'' (Ent (Entry ''constructor'' ''c1'' False))
             (Builtin ''constructor'')] \<and>
   getChanges (Tree []) (Some (Tree [Entry ''constructor'' ''c1'' False])) = None"
  by code_simp

section \<open>Completion of the History Walker\<close>

lemma completions_append: "completions (es @ fs) = completions es + completions fs"
  by (induction es rule: completions.induct) simp_all


lemma updates_append: "updates (es @ fs) = updates es @ updates fs"
  by (induction es rule: updates.induct) simp_all

lemma complete_once_start: "complete_once (start (constructor a n))"
  by (simp add: complete_once_def start_def constructor_def)

lemma complete_once_processCommit:
  "pending w \<noteq> Fulfilled \<Longrightarrow> OnComplete \<notin> set (trace w) \<Longrightarrow> complete_once (processCommit w c)"
  by (auto simp: complete_once_def processCommit_def fulfil_def complete_def cancel_def Let_def)

lemma complete_once_resume: "complete_once w \<Longrightarrow> complete_once (resume repo w)"
proof (cases "pending w")
  case AwaitRoot
  assume "complete_once w"
  with AwaitRoot have n: "OnComplete \<notin> set (trace w)" "pending w \<noteq> Fulfilled"
    by (simp_all add: complete_once_def)
  show ?thesis
  proof (cases "repo (root w)")
    case None
    with AwaitRoot n show ?thesis by (simp add: resume_def complete_once_def)
  next
    case (Some c)
    with AwaitRoot complete_once_processCommit[OF n(2,1)] show ?thesis
      by (simp add: resume_def)
  qed
next
  case (AwaitParents as)
  assume "complete_once w"
  with AwaitParents have n: "OnComplete \<notin> set (trace w)" "pending w \<noteq> Fulfilled"
    by (simp_all add: complete_once_def)
  show ?thesis
  proof (cases "those (map repo as)")
    case None
    with AwaitParents n show ?thesis by (simp add: resume_def complete_once_def)
  next
    case (Some ps)
    show ?thesis
    proof (cases "newest_first (queue w @ ps)")
      case Nil
      with AwaitParents Some n show ?thesis
        by (simp add: resume_def complete_once_def fulfil_def complete_def cancel_def)
    next
      case (Cons newest rest)
      have "complete_once (processCommit (w\<lparr>queue := rest\<rparr>) newest)"
        using n by (intro complete_once_processCommit) simp_all
      with AwaitParents Some Cons show ?thesis by (simp add: resume_def)
    qed
  qed
qed (simp_all add: resume_def)

lemma complete_once_act: "complete_once w \<Longrightarrow> complete_once (act repo w x)"
  by (cases x) (auto simp: complete_once_resume, auto simp: complete_once_def cancel_def)

lemma complete_once_run: "complete_once (fetchCommitAndParents repo a n acts)"
proof -
  have "complete_once w \<Longrightarrow> complete_once (foldl (act repo) w acts)" for w
    by (induction acts arbitrary: w) (simp_all add: complete_once_act)
  then show ?thesis by (simp add: fetchCommitAndParents_def complete_once_start)
qed



section \<open>The History Walker with a finite count\<close>

lemma updates_map_GetObject [simp]: "updates (map GetObject as) = []"
  by (induction as) simp_all

lemma completions_map_GetObject [simp]: "completions (map GetObject as) = 0"
  by (induction as) simp_all

text \<open>Processing a commit that does not reach the required count.\<close>

lemma visiting_continues:
  assumes "visiting repo w c" and "\<not> (countRequired w \<noteq> - 1 \<and> countRequired w \<le> int (count w) + 1)"
  shows "walking repo (processCommit w c)"
    and "commits (processCommit w c) = commits w @ [c]"
    and "queue (processCommit w c) = queue w"
    and "root (processCommit w c) = root w"
    and "countRequired (processCommit w c) = countRequired w"
    and "\<exists>as. pending (processCommit w c) = AwaitParents as"
proof -
  let ?as = "filter (\<lambda>a. a \<notin> fetched w) (parents c)"
  have eq: "processCommit w c =
      w\<lparr>count := count w + 1, commits := commits w @ [c],
        trace := (trace w @ [OnUpdate (if countRequired w = - 1 then commits w @ [c]
                                     else slice0 (countRequired w) (commits w @ [c]))]) @ map GetObject ?as,
        fetched := fetched w \<union> set ?as, pending := AwaitParents ?as\<rparr>"
    using assms by (auto simp: processCommit_def visiting_def Let_def)
  show "commits (processCommit w c) = commits w @ [c]" "queue (processCommit w c) = queue w"
    "root (processCommit w c) = root w" "countRequired (processCommit w c) = countRequired w"
    "\<exists>as. pending (processCommit w c) = AwaitParents as"
    by (simp_all add: eq)
  have c_reach: "cid c \<in> reachable repo (root w)" using assms(1) by (auto simp: visiting_def)
  have "set ?as \<subseteq> reachable repo (root w)"
    using c_reach assms(1) by (auto simp: visiting_def intro: reachable.parent)
  moreover have "set (parents c) \<subseteq> fetched w \<union> set ?as" by auto
  ultimately show "walking repo (processCommit w c)"
    using assms(1) unfolding eq walking_def visiting_def
    by (simp add: updates_append completions_append) blast
qed


lemma those_eq_Some: "those xs = Some ys \<longleftrightarrow> xs = map Some ys"
proof (induction xs arbitrary: ys)
  case Nil
  then show ?case by auto
next
  case (Cons x xs)
  show ?case
  proof (cases x)
    case None
    then show ?thesis by auto
  next
    case (Some z)
    show ?thesis
    proof (cases "those xs")
      case None
      with Cons.IH have "\<And>zs. xs \<noteq> map Some zs" by simp
      with None Some show ?thesis by auto
    next
      case (Some zs)
      with Cons.IH[of zs] have "xs = map Some zs" by simp
      with Some \<open>x = Some z\<close> show ?thesis by auto
    qed
  qed
qed

lemma resolves_those:
  assumes "resolves repo r" and "set as \<subseteq> reachable repo r"
  shows "\<exists>ps. those (map repo as) = Some ps \<and> map cid ps = as \<and> (\<forall>p\<in>set ps. repo (cid p) = Some p)"
  using assms(2)
proof (induction as)
  case Nil
  then show ?case by simp
next
  case (Cons a as)
  then obtain ps where ps: "those (map repo as) = Some ps" "map cid ps = as"
    "\<forall>p\<in>set ps. repo (cid p) = Some p" by auto
  from Cons.prems assms(1) obtain c where "repo a = Some c" "cid c = a"
    by (auto simp: resolves_def)
  with ps show ?case by simp
qed

lemma walkingD:
  assumes "walking repo w"
  shows "running w" and "count w = length (commits w)" and "completions (trace w) = 0"
    and "\<forall>x\<in>set (commits w). repo (cid x) = Some x"
    and "\<forall>x\<in>set (queue w). repo (cid x) = Some x"
  using assms unfolding walking_def by blast+

lemma walking_parentsD:
  assumes "walking repo w" and "pending w = AwaitParents as"
  shows "commits w \<noteq> []" and "set as \<subseteq> set (parents (last (commits w)))"
    and "fetched w = cid ` set (commits w) \<union> cid ` set (queue w) \<union> set as"
    and "root w \<in> cid ` set (commits w)"
    and "\<forall>x\<in>set (commits w). set (parents x) \<subseteq> fetched w"
    and "fetched w \<subseteq> reachable repo (root w)"
    and "updates (trace w) \<noteq> []"
    and "last (updates (trace w)) =
            (if countRequired w = - 1 then commits w else slice0 (countRequired w) (commits w))"
  using assms unfolding walking_def by (simp_all only: pending.case) blast+

text \<open>When nothing is left to visit, everything reachable has been visited.\<close>

lemma exhausted_all_visited:
  assumes "walking repo w" and "pending w = AwaitParents []" and "queue w = []"
  shows "reachable repo (root w) \<subseteq> cid ` set (commits w)"
proof
  note d = walkingD[OF assms(1)] walking_parentsD[OF assms(1,2)]
  have f: "fetched w = cid ` set (commits w)" using d(8) assms(3) by simp
  fix a assume "a \<in> reachable repo (root w)"
  then show "a \<in> cid ` set (commits w)"
  proof induction
    case root
    show ?case by (rule d(9))
  next
    case (parent a c b)
    then obtain x where x: "x \<in> set (commits w)" "cid x = a" by auto
    with d(4) have "repo a = Some x" by auto
    with parent have "x = c" by simp
    with x d(10) parent(3) have "b \<in> fetched w" by auto
    then show ?case by (simp add: f)
  qed
qed

lemma newest_first_set [simp]: "set (newest_first cs) = set cs"
  by (simp add: newest_first_def)

lemma newest_first_Nil [simp]: "newest_first cs = [] \<longleftrightarrow> cs = []"
  by (metis length_0_conv length_sort newest_first_def)

lemma walking_resume:
  assumes "walking repo w" and "resolves repo (root w)"
    and "S \<subseteq> reachable repo (root w)" and "finite S" and "length (commits w) < card S"
  shows "\<exists>w' c. resume repo w = processCommit w' c \<and> visiting repo w' c \<and>
           commits w' = commits w \<and> count w' = count w \<and> root w' = root w \<and>
           countRequired w' = countRequired w \<and> trace w' = trace w \<and>
           fetched w' = fetched w \<and>
           (pending w = AwaitRoot \<longrightarrow> queue w' = []) \<and>
           (\<forall>as. pending w = AwaitParents as \<longrightarrow>
              (\<exists>ps. those (map repo as) = Some ps \<and> map cid ps = as \<and>
                    newest_first (queue w @ ps) = c # queue w'))"
proof (cases "pending w")
  case AwaitRoot
  have "root w \<in> reachable repo (root w)" by (rule reachable.root)
  with assms(2) obtain c where c: "repo (root w) = Some c" "cid c = root w"
    by (auto simp: resolves_def)
  have "visiting repo w c"
    using assms(1) AwaitRoot c by (auto simp: walking_def visiting_def intro: reachable.root)
  moreover have "queue w = []" using assms(1) AwaitRoot by (simp add: walking_def)
  ultimately have "resume repo w = processCommit w c \<and> visiting repo w c \<and> queue w = []"
    using AwaitRoot c by (simp add: resume_def)
  with AwaitRoot show ?thesis by auto
next
  case (AwaitParents as)
  note d = walkingD[OF assms(1)] walking_parentsD[OF assms(1) AwaitParents]
  have "set as \<subseteq> reachable repo (root w)" using d(8,11) by auto
  from resolves_those[OF assms(2) this] obtain ps where ps: "those (map repo as) = Some ps"
    "map cid ps = as" "\<forall>p\<in>set ps. repo (cid p) = Some p" by auto
  have "queue w @ ps \<noteq> []"
  proof
    assume e: "queue w @ ps = []"
    with ps have "as = []" by auto
    with exhausted_all_visited[OF assms(1)] AwaitParents e
    have "reachable repo (root w) \<subseteq> cid ` set (commits w)" by simp
    with assms(3) have "S \<subseteq> cid ` set (commits w)" by simp
    then have "card S \<le> card (cid ` set (commits w))" by (intro card_mono) auto
    also have "\<dots> \<le> card (set (commits w))" by (rule card_image_le) simp
    also have "\<dots> \<le> length (commits w)" by (rule card_length)
    finally show False using assms(5) by simp
  qed
  then obtain c rest where q: "newest_first (queue w @ ps) = c # rest"
    by (cases "newest_first (queue w @ ps)") auto
  then have sets: "set (queue w) \<union> set ps = insert c (set rest)"
    by (metis newest_first_set set_append list.simps(15))
  have as_eq: "set as = cid ` set ps" using ps(2) by auto
  have img: "cid ` set (queue w) \<union> set as = insert (cid c) (cid ` set rest)"
    using sets as_eq by (metis image_Un image_insert)
  have c_ok: "repo (cid c) = Some c" and rest_ok: "\<forall>x\<in>set rest. repo (cid x) = Some x"
    using d(5) ps(3) sets by auto
  have f': "fetched w = cid ` set (commits w) \<union> cid ` set rest \<union> {cid c}"
    using d(8) img by auto
  have "visiting repo (w\<lparr>queue := rest\<rparr>) c"
    unfolding visiting_def using d(1,2,3,4,9,10,11) c_ok rest_ok f' by (simp add: ball_Un)
  with AwaitParents ps q show ?thesis by (auto simp: resume_def)
qed (use assms(1) in \<open>simp_all add: walking_def\<close>)

lemma descending_snoc:
  "descending (cs @ [c]) \<longleftrightarrow> descending cs \<and> (\<forall>x\<in>set cs. committer c \<le> committer x)"
  by (auto simp: descending_def sorted_wrt_append)

lemma descending_last:
  "descending cs \<Longrightarrow> x \<in> set cs \<Longrightarrow> committer (last cs) \<le> committer x"
  by (induction cs) (auto simp: descending_def)

lemma newest_first_Cons:
  assumes "newest_first cs = c # rest" and "q \<in> set rest"
  shows "committer q \<le> committer c"
proof -
  have "sorted (map (\<lambda>c. - committer c) (newest_first cs))"
    unfolding newest_first_def by (rule sorted_sort_key)
  with assms show ?thesis by auto
qed

lemma last_visited_reachable:
  assumes "walking repo w" and "pending w = AwaitParents as"
  shows "cid (last (commits w)) \<in> reachable repo (root w)"
    and "repo (cid (last (commits w))) = Some (last (commits w))"
proof -
  note d = walkingD[OF assms(1)] walking_parentsD[OF assms]
  have l: "last (commits w) \<in> set (commits w)" using d(6) by simp
  then show "repo (cid (last (commits w))) = Some (last (commits w))" using d(4) by blast
  from l have "cid (last (commits w)) \<in> fetched w" unfolding d(8) by blast
  with d(11) show "cid (last (commits w)) \<in> reachable repo (root w)" by blast
qed

lemma order_step:
  assumes "walking repo w" and "newest_visited w" and "parents_older repo (root w)"
    and "visiting repo w' c"
    and "pending w = AwaitRoot \<longrightarrow> queue w' = []"
    and "\<forall>as. pending w = AwaitParents as \<longrightarrow>
              (\<exists>ps. those (map repo as) = Some ps \<and> map cid ps = as \<and>
                    newest_first (queue w @ ps) = c # queue w')"
  shows "descending (commits w @ [c])"
    and "\<forall>x\<in>set (commits w @ [c]). \<forall>q\<in>set (queue w'). committer q \<le> committer x"
proof -
  have "descending (commits w @ [c]) \<and>
        (\<forall>x\<in>set (commits w @ [c]). \<forall>q\<in>set (queue w'). committer q \<le> committer x)"
  proof (cases "pending w")
    case AwaitRoot
    with assms(1) have "commits w = []" by (simp add: walking_def)
    with assms(5) AwaitRoot show ?thesis by (simp add: descending_def)
  next
    case (AwaitParents as)
    note d = walkingD[OF assms(1)] walking_parentsD[OF assms(1) AwaitParents]
    note l = last_visited_reachable[OF assms(1) AwaitParents]
    from assms(6) AwaitParents obtain ps where ps: "those (map repo as) = Some ps"
      "map cid ps = as" "newest_first (queue w @ ps) = c # queue w'" by auto
    have sets: "insert c (set (queue w')) = set (queue w) \<union> set ps"
      by (metis ps(3) newest_first_set set_append list.simps(15))
    have ok: "\<forall>y\<in>insert c (set (queue w')). repo (cid y) = Some y"
      using assms(4) by (simp add: visiting_def)
    have below: "committer y \<le> committer x"
      if y: "y \<in> insert c (set (queue w'))" and x: "x \<in> set (commits w)" for x y
    proof (cases "y \<in> set (queue w)")
      case True
      with assms(2) x show ?thesis by (simp add: newest_visited_def)
    next
      case False
      with y sets have "y \<in> set ps" by blast
      with ps(2) have "cid y \<in> set as" by auto
      with d(7) have "cid y \<in> set (parents (last (commits w)))" by blast
      moreover have "repo (cid y) = Some y" using ok y by blast
      ultimately have "committer y \<le> committer (last (commits w))"
        using assms(3) l unfolding parents_older_def by blast
      also have "\<dots> \<le> committer x"
        using assms(2) x by (simp add: newest_visited_def descending_last)
      finally show ?thesis .
    qed
    have "\<forall>q\<in>set (queue w'). committer q \<le> committer c"
      using newest_first_Cons[OF ps(3)] by blast
    with below assms(2) show ?thesis
      by (auto simp: descending_snoc newest_visited_def)
  qed (use assms(1) in \<open>simp_all add: walking_def\<close>)
  then show "descending (commits w @ [c])"
    and "\<forall>x\<in>set (commits w @ [c]). \<forall>q\<in>set (queue w'). committer q \<le> committer x"
    by blast+
qed

lemma walking_start: "walking repo (start (constructor r n))"
  by (simp add: walking_def start_def constructor_def)

lemma run_snoc:
  "fetchCommitAndParents repo r n (acts @ [x]) = act repo (fetchCommitAndParents repo r n acts) x"
  by (simp add: fetchCommitAndParents_def)

lemma requests_append: "requests (es @ fs) = requests es @ requests fs"
  by (induction es rule: requests.induct) simp_all

lemma requests_map_GetObject [simp]: "requests (map GetObject as) = as"
  by (induction as) simp_all

lemma visiting_suspends:
  assumes "visiting repo w c" and "\<not> (countRequired w \<noteq> - 1 \<and> countRequired w \<le> int (count w) + 1)"
  shows "pending (processCommit w c) = AwaitParents (filter (\<lambda>a. a \<notin> fetched w) (parents c))"
    and "requests (trace (processCommit w c)) =
           requests (trace w) @ filter (\<lambda>a. a \<notin> fetched w) (parents c)"
    and "fetched (processCommit w c) = fetched w \<union> set (filter (\<lambda>a. a \<notin> fetched w) (parents c))"
  using assms by (auto simp: processCommit_def visiting_def Let_def requests_append)

lemma distinct_newest_first:
  "distinct (map cid (newest_first cs)) \<longleftrightarrow> distinct (map cid cs)"
  by (simp add: newest_first_def distinct_map)

text \<open>Processing one more commit keeps every address single.\<close>

lemma once_step:
  assumes "walking repo w" and "once w" and "no_repeats repo (root w)"
    and "visiting repo w' c" and "commits w' = commits w" and "root w' = root w"
    and "trace w' = trace w" and "fetched w' = fetched w"
    and "\<not> (countRequired w' \<noteq> - 1 \<and> countRequired w' \<le> int (count w') + 1)"
    and "pending w = AwaitRoot \<longrightarrow> queue w' = []"
    and "\<forall>as. pending w = AwaitParents as \<longrightarrow>
              (\<exists>ps. those (map repo as) = Some ps \<and> map cid ps = as \<and>
                    newest_first (queue w @ ps) = c # queue w')"
  shows "once (processCommit w' c)"
proof -
  let ?as = "filter (\<lambda>a. a \<notin> fetched w') (parents c)"
  note v = visiting_continues[OF assms(4,9)] visiting_suspends[OF assms(4,9)]
  have f: "fetched w' = cid ` set (commits w') \<union> cid ` set (queue w') \<union> {cid c}"
    and c: "repo (cid c) = Some c" and sub: "fetched w' \<subseteq> reachable repo (root w')"
    using assms(4) unfolding visiting_def by blast+
  have "cid c \<in> reachable repo (root w)" using f sub assms(6) by auto
  with assms(3) c have dp: "distinct (parents c)" unfolding no_repeats_def by blast
  have seen: "distinct (map cid (commits w) @ map cid (c # queue w'))"
  proof (cases "pending w")
    case AwaitRoot
    with assms(1) have "commits w = []" by (simp add: walking_def)
    with assms(10) AwaitRoot show ?thesis by simp
  next
    case (AwaitParents as)
    with assms(11) obtain ps where ps: "map cid ps = as"
      "newest_first (queue w @ ps) = c # queue w'" by auto
    from assms(2) AwaitParents ps(1)
    have d: "distinct (map cid (commits w) @ map cid (queue w @ ps))" by (simp add: once_def)
    have "distinct (map cid (c # queue w')) \<longleftrightarrow> distinct (map cid (queue w @ ps))"
      using distinct_newest_first[of "queue w @ ps"] ps(2) by simp
    moreover have "set (c # queue w') = set (queue w @ ps)"
      by (metis ps(2) newest_first_set)
    then have "set (map cid (c # queue w')) = set (map cid (queue w @ ps))"
      by (simp only: set_map)
    ultimately show ?thesis using d by (simp only: distinct_append)
  qed (use assms(1) in \<open>simp_all add: walking_def\<close>)
  have disj: "set ?as \<inter> fetched w' = {}" by auto
  with f assms(5) have "set ?as \<inter> (cid ` set (commits w) \<union> cid ` set (c # queue w')) = {}"
    by auto
  with seen dp have 1: "distinct (map cid (commits w @ [c]) @ map cid (queue w') @ ?as)"
    by (auto simp: distinct_append)
  have r: "distinct (requests (trace w'))" "set (requests (trace w')) = fetched w'"
    using assms(2,7,8) by (simp_all add: once_def)
  with dp disj have 2: "distinct (requests (trace w') @ ?as)" by (auto simp: distinct_append)
  show ?thesis
    unfolding once_def using 1 2 r(2) v(2,3,7,8,9) assms(5) by simp
qed

text \<open>
  The first \<open>i\<close> settled promises of a run that nobody cancels, as long as the
  required count is not reached and reachable commits are left.
\<close>

lemma walk_steps:
  assumes "resolves repo r" and "S \<subseteq> reachable repo r" and "finite S" and "i \<le> card S"
    and "n = - 1 \<or> int i < n"
  shows "walking repo (fetchCommitAndParents repo r n (replicate i (Settle 0))) \<and>
         count (fetchCommitAndParents repo r n (replicate i (Settle 0))) = i \<and>
         root (fetchCommitAndParents repo r n (replicate i (Settle 0))) = r \<and>
         countRequired (fetchCommitAndParents repo r n (replicate i (Settle 0))) = n \<and>
         (parents_older repo r \<longrightarrow>
            newest_visited (fetchCommitAndParents repo r n (replicate i (Settle 0)))) \<and>
         (no_repeats repo r \<longrightarrow>
            once (fetchCommitAndParents repo r n (replicate i (Settle 0))))"
  using assms(4,5)
proof (induction i)
  case 0
  show ?case
    by (simp add: fetchCommitAndParents_def walking_start)
       (simp add: start_def constructor_def newest_visited_def descending_def once_def)
next
  case (Suc i)
  let ?w = "fetchCommitAndParents repo r n (replicate i (Settle 0))"
  from Suc have w: "walking repo ?w" "count ?w = i" "root ?w = r" "countRequired ?w = n"
    and o: "parents_older repo r \<longrightarrow> newest_visited ?w"
    and u: "no_repeats repo r \<longrightarrow> once ?w" by auto
  have len: "length (commits ?w) < card S"
    using walkingD(2)[OF w(1)] w(2) Suc.prems by simp
  from walking_resume[OF w(1) _ _ assms(3) len] assms(1,2) w(3)
  obtain w' c where s: "resume repo ?w = processCommit w' c" "visiting repo w' c"
    "commits w' = commits ?w" "count w' = count ?w" "root w' = root ?w"
    "countRequired w' = countRequired ?w" "trace w' = trace ?w"
    "pending ?w = AwaitRoot \<longrightarrow> queue w' = []"
    "\<forall>as. pending ?w = AwaitParents as \<longrightarrow>
              (\<exists>ps. those (map repo as) = Some ps \<and> map cid ps = as \<and>
                    newest_first (queue ?w @ ps) = c # queue w')"
    "fetched w' = fetched ?w"
    by auto
  have go: "\<not> (countRequired w' \<noteq> - 1 \<and> countRequired w' \<le> int (count w') + 1)"
    using s(4,6) w(2,4) Suc.prems by auto
  note v = visiting_continues[OF s(2) go]
  have next_eq: "fetchCommitAndParents repo r n (replicate (Suc i) (Settle 0)) = processCommit w' c"
  proof -
    have "replicate (Suc i) (Settle 0) = replicate i (Settle 0) @ [Settle 0]"
      by (simp add: replicate_append_same)
    then show ?thesis using s(1) by (simp only: run_snoc) simp
  qed
  have "count (processCommit w' c) = Suc i"
    using walkingD(2)[OF v(1)] v(2) s(3) walkingD(2)[OF w(1)] w(2) by simp
  moreover have "newest_visited (processCommit w' c)" if "parents_older repo r"
    using order_step[OF w(1) _ _ s(2) s(8) s(9)] o that w(3) v(2,3) s(3)
    by (simp add: newest_visited_def)
  moreover have "once (processCommit w' c)" if "no_repeats repo r"
    using once_step[OF w(1) _ _ s(2) s(3) s(5) s(7) s(10) go s(8) s(9)] u that w(3) by simp
  ultimately show ?case
    unfolding next_eq using v(1,4,5) s(5,6) w(3,4) by simp
qed



lemma reachable_diamond: "reachable diamond ''A'' \<subseteq> {''A'', ''B'', ''C'', ''D''}"
proof
  fix a assume "a \<in> reachable diamond ''A''"
  then show "a \<in> {''A'', ''B'', ''C'', ''D''}"
    by induction (auto simp: diamond_def split: if_splits)
qed

lemma resolves_diamond: "resolves diamond ''A''"
  using reachable_diamond by (auto simp: resolves_def diamond_def)






section \<open>The History Walker on a whole history\<close>

text \<open>
  The walk of a whole history. Let every reachable address resolve, let the
  reachable addresses be finitely many, and let no reachable commit name a parent
  twice. Then the run with \<open>countRequired = -1\<close> ends after one settled promise per
  reachable commit and one more: the queue is empty, \<^verbatim>\<open>onComplete\<close> is called once, as
  the last event, and the last sequence passed to \<^verbatim>\<open>onUpdate\<close> holds every reachable
  commit exactly once, and no address was requested from the store twice.
\<close>

lemma whole_walk_result:
  assumes "resolves repo r" and "finite (reachable repo r)" and "no_repeats repo r"
  shows "pending (fetchCommitAndParents repo r (- 1) (replicate (Suc (card (reachable repo r))) (Settle 0))) = Fulfilled"
    and "queue (fetchCommitAndParents repo r (- 1) (replicate (Suc (card (reachable repo r))) (Settle 0))) = []"
    and "completions (trace (fetchCommitAndParents repo r (- 1) (replicate (Suc (card (reachable repo r))) (Settle 0)))) = 1"
    and "last (trace (fetchCommitAndParents repo r (- 1) (replicate (Suc (card (reachable repo r))) (Settle 0)))) = OnComplete"
    and "last (updates (trace (fetchCommitAndParents repo r (- 1) (replicate (Suc (card (reachable repo r))) (Settle 0))))) =
           commits (fetchCommitAndParents repo r (- 1) (replicate (Suc (card (reachable repo r))) (Settle 0)))"
    and "distinct (map cid (commits (fetchCommitAndParents repo r (- 1) (replicate (Suc (card (reachable repo r))) (Settle 0)))))"
    and "cid ` set (commits (fetchCommitAndParents repo r (- 1) (replicate (Suc (card (reachable repo r))) (Settle 0)))) =
           reachable repo r"
    and "distinct (requests (trace (fetchCommitAndParents repo r (- 1) (replicate (Suc (card (reachable repo r))) (Settle 0)))))"
proof -
  let ?N = "card (reachable repo r)"
  let ?w = "fetchCommitAndParents repo r (- 1) (replicate ?N (Settle 0))"
  let ?W = "fetchCommitAndParents repo r (- 1) (replicate (Suc ?N) (Settle 0))"
  from walk_steps[OF assms(1) subset_refl assms(2) le_refl, of "- 1"] assms(3)
  have w: "walking repo ?w" "count ?w = ?N" "root ?w = r" "countRequired ?w = - 1" "once ?w"
    by auto
  note d = walkingD[OF w(1)]
  have "r \<in> reachable repo r" by (rule reachable.root)
  with assms(2) have "0 < ?N" by (auto simp: card_gt_0_iff)
  with d(2) w(2) have ne: "commits ?w \<noteq> []" by auto
  then obtain as where p: "pending ?w = AwaitParents as"
    using w(1) by (cases "pending ?w") (simp_all add: walking_def)
  note e = walking_parentsD[OF w(1) p]
  let ?L = "map cid (commits ?w) @ map cid (queue ?w) @ as"
  have dL: "distinct ?L" using w(5) p by (simp add: once_def)
  have "set ?L \<subseteq> reachable repo r" using e(3,6) w(3) by auto
  then have "card (set ?L) \<le> ?N" using assms(2) by (rule card_mono[rotated])
  with dL have "length ?L \<le> ?N" by (simp only: distinct_card)
  with d(2) w(2) have empty: "queue ?w = []" "as = []" by simp_all
  from exhausted_all_visited[OF w(1)] p empty w(3)
  have "reachable repo r \<subseteq> cid ` set (commits ?w)" by simp
  moreover have "cid ` set (commits ?w) \<subseteq> reachable repo r" using e(3,6) w(3) by auto
  ultimately have all: "cid ` set (commits ?w) = reachable repo r" by blast
  have "replicate (Suc ?N) (Settle 0) = replicate ?N (Settle 0) @ [Settle 0]"
    by (simp add: replicate_append_same)
  then have "?W = resume repo ?w" by (simp only: run_snoc) simp
  with p empty have W: "?W = fulfil (complete (?w\<lparr>queue := []\<rparr>))"
    by (simp add: resume_def newest_first_def)
  show "pending ?W = Fulfilled" "queue ?W = []"
    unfolding W by (simp_all add: fulfil_def complete_def cancel_def)
  show "completions (trace ?W) = 1"
    unfolding W using d(3) by (simp add: fulfil_def complete_def cancel_def completions_append)
  show "last (trace ?W) = OnComplete"
    unfolding W by (simp add: fulfil_def complete_def cancel_def)
  show "last (updates (trace ?W)) = commits ?W"
    unfolding W using e(8) w(4) by (simp add: fulfil_def complete_def cancel_def updates_append)
  show "distinct (map cid (commits ?W))"
    unfolding W using dL by (simp add: fulfil_def complete_def cancel_def)
  show "distinct (requests (trace ?W))"
    unfolding W using w(5) by (simp add: fulfil_def complete_def cancel_def requests_append once_def)
  show "cid ` set (commits ?W) = reachable repo r"
    unfolding W using all by (simp add: fulfil_def complete_def cancel_def)
qed

text \<open>The diamond meets the hypotheses of the walk of a whole history.\<close>

lemma whole_walk_diamond:
  "resolves diamond ''A'' \<and> finite (reachable diamond ''A'') \<and> no_repeats diamond ''A''
   \<and> cid ` set (commits (fetchCommitAndParents diamond ''A'' (- 1)
        (replicate (Suc (card (reachable diamond ''A''))) (Settle 0)))) = reachable diamond ''A''"
proof -
  have f: "finite (reachable diamond ''A'')"
    using reachable_diamond by (rule finite_subset) simp
  have n: "no_repeats diamond ''A''"
    unfolding no_repeats_def by (auto simp: diamond_def split: if_splits)
  from whole_walk_result(7)[OF resolves_diamond f n] resolves_diamond f n
  show ?thesis by simp
qed

section \<open>Order of the diff result\<close>

lemmas diff_defs =
  fetchDiff_def DiffFetcher_start_def DiffFetcher_constructor_def fetchTrees_def visit_def
  settled_def by_name_def cancel_def Let_def

lemma updates_request: "request s = Some es \<Longrightarrow> updates es = []"
  by (cases s) (auto split: if_splits)

lemma fetchTrees_keeps:
  "stateChanges (fetchTrees d t1 t2 p) = stateChanges d"
  "updates (trace (fetchTrees d t1 t2 p)) = updates (trace d)"
  by (simp_all add: fetchTrees_def updates_append split: option.splits)

lemma visit_keeps:
  "stateChanges (visit p d c) = stateChanges d"
  "updates (trace (visit p d c)) = updates (trace d)"
  by (auto simp: visit_def fetchTrees_keeps updates_append updates_request
      split: both_dirs.splits option.splits)

lemma visits_keep:
  "stateChanges (foldl (visit p) d cs) = stateChanges d"
  "updates (trace (foldl (visit p) d cs)) = updates (trace d)"
  by (induction cs arbitrary: d) (simp_all add: visit_keeps)

lemma name_sorted_continue:
  assumes "name_sorted d"
  shows "name_sorted (continue getObject fetchContents d t)"
proof (cases t)
  case (Trees t1 t2 p)
  with assms show ?thesis
    by (auto simp: name_sorted_def visits_keep split: option.splits)
next
  case (Files p n s0 s1)
  have "sorted (map rname (by_name rs))" for rs
    unfolding by_name_def by (rule sorted_sort_key)
  with assms Files show ?thesis
    by (auto simp: name_sorted_def Let_def updates_append split: option.splits)
qed

lemma name_sorted_act:
  assumes "name_sorted d"
  shows "name_sorted (diff_act getObject fetchContents d x)"
proof (cases x)
  case Cancel
  with assms show ?thesis by (simp add: name_sorted_def cancel_def)
next
  case (Settle i)
  have "name_sorted (d\<lparr>pool := ts\<rparr>)" for ts
    using assms by (simp add: name_sorted_def)
  from name_sorted_continue[OF this]
  have "name_sorted (settled (continue getObject fetchContents (d\<lparr>pool := ts\<rparr>) t))" for ts t
    by (simp add: name_sorted_def settled_def)
  with assms Settle show ?thesis by simp
qed

lemma name_sorted_start: "name_sorted (DiffFetcher_start (DiffFetcher_constructor b c))"
  by (simp add: name_sorted_def DiffFetcher_start_def DiffFetcher_constructor_def fetchTrees_keeps)

lemma name_sorted_run: "name_sorted (fetchDiff getObject fetchContents b c acts)"
proof -
  have "name_sorted d \<Longrightarrow> name_sorted (foldl (diff_act getObject fetchContents) d acts)" for d
    by (induction acts arbitrary: d) (simp_all add: name_sorted_act)
  then show ?thesis by (simp add: fetchDiff_def name_sorted_start)
qed

text \<open>
  C6. In every run of the diff engine, whatever the order in which the pending
  promises settle and whether or not it is cancelled, the result list is sorted
  by name (strings compared code unit by code unit; the path is no part of the
  key), at the end as at every moment, and so is every list passed to
  \<^verbatim>\<open>onUpdate\<close>.
\<close>

theorem diff_sorted_by_name:
  "sorted (map rname (stateChanges (fetchDiff getObject fetchContents b c acts))) \<and>
   (\<forall>u\<in>set (updates (trace (fetchDiff getObject fetchContents b c acts))). sorted (map rname u))"
  using name_sorted_run[of getObject fetchContents b c acts]
  by (simp add: name_sorted_def list_all_iff)

lemma changes_base_comp:
  "getChanges (Tree [Entry ''foo.txt'' ''addr1'' False, Entry ''bar'' ''addr2'' True])
     (Some (Tree [Entry ''foo.txt'' ''addr1'' False, Entry ''bar'' ''addr3'' True])) =
   Some [Change ''bar'' (Ent (Entry ''bar'' ''addr2'' True)) (Ent (Entry ''bar'' ''addr3'' True))]"
  by code_simp

lemma changes_addr2_addr3:
  "getChanges (Tree [Entry ''x'' ''x1'' False, Entry ''a'' ''a1'' False])
     (Some (Tree [Entry ''x'' ''x2'' False, Entry ''b'' ''b1'' False])) =
   Some [Change ''x'' (Ent (Entry ''x'' ''x1'' False)) (Ent (Entry ''x'' ''x2'' False)),
         Change ''a'' (Ent (Entry ''a'' ''a1'' False)) Undefined,
         Change ''b'' Undefined (Ent (Entry ''b'' ''b1'' False))]"
  by code_simp

lemma out_of_order_run:
  "updates (trace (fetchDiff snapshots blobs ''base'' (Some ''comp'')
      [Settle 0, Settle 0, Settle 2, Settle 0, Settle 0])) =
   [[DiffRec (Some ''bar'') ''b'' (Skipped Undefined) (Contents ''contents of b1'')],
    [DiffRec (Some ''bar'') ''b'' (Skipped Undefined) (Contents ''contents of b1''),
     DiffRec (Some ''bar'') ''x'' (Contents ''contents of x1'') (Contents ''contents of x2'')],
    [DiffRec (Some ''bar'') ''a'' (Contents ''contents of a1'') (Skipped Undefined),
     DiffRec (Some ''bar'') ''b'' (Skipped Undefined) (Contents ''contents of b1''),
     DiffRec (Some ''bar'') ''x'' (Contents ''contents of x1'') (Contents ''contents of x2'')]]"
  by (simp add: diff_defs snapshots_def blobs_def changes_base_comp changes_addr2_addr3)

theorem diff_sorted_by_name_witness:
  "[DiffRec (Some ''bar'') ''a'' (Contents ''contents of a1'') (Skipped Undefined),
    DiffRec (Some ''bar'') ''b'' (Skipped Undefined) (Contents ''contents of b1''),
    DiffRec (Some ''bar'') ''x'' (Contents ''contents of x1'') (Contents ''contents of x2'')]
     \<in> set (updates (trace (fetchDiff snapshots blobs ''base'' (Some ''comp'')
          [Settle 0, Settle 0, Settle 2, Settle 0, Settle 0])))
   \<and> sorted (map rname
       [DiffRec (Some ''bar'') ''a'' (Contents ''contents of a1'') (Skipped Undefined),
        DiffRec (Some ''bar'') ''b'' (Skipped Undefined) (Contents ''contents of b1''),
        DiffRec (Some ''bar'') ''x'' (Contents ''contents of x1'') (Contents ''contents of x2'')])"
  using diff_sorted_by_name[of snapshots blobs "''base''" "Some ''comp''"
      "[Settle 0, Settle 0, Settle 2, Settle 0, Settle 0]"]
  by (simp add: out_of_order_run)

section \<open>What a rejection does\<close>

lemma rejected_stays:
  "pending w = Rejected \<Longrightarrow>
   pending (foldl (act repo) w later) = Rejected \<and> trace (foldl (act repo) w later) = trace w"
proof (induction later arbitrary: w)
  case Nil
  then show ?case by simp
next
  case (Cons x xs)
  have "pending (act repo w x) = Rejected \<and> trace (act repo w x) = trace w"
    using Cons.prems by (cases x) (simp_all add: resume_def cancel_def)
  with Cons.IH[of "act repo w x"] show ?case by simp
qed

lemma those_None: "list_ex (\<lambda>a. repo a = None) as \<Longrightarrow> those (map repo as) = None"
  by (induction as) (auto split: option.splits)

lemma walker_rejects_resume:
  assumes "walker_rejects repo w"
  shows "pending (resume repo w) = Rejected" and "trace (resume repo w) = trace w"
    and "pending w \<noteq> Fulfilled"
  using assms
  by (auto simp: walker_rejects_def resume_def those_None split: pending.splits)

lemma failed_fetchTrees: "failed (fetchTrees d t1 t2 p) = failed d"
  by (simp add: fetchTrees_def)

lemma failed_visit: "failed d \<Longrightarrow> failed (visit p d c)"
  by (auto simp: visit_def failed_fetchTrees split: both_dirs.splits option.splits)

lemma failed_visits: "failed d \<Longrightarrow> failed (foldl (visit p) d cs)"
  by (induction cs arbitrary: d) (simp_all add: failed_visit)

lemma failed_continue: "failed d \<Longrightarrow> failed (continue getObject fetchContents d t)"
  by (cases t) (auto simp: failed_visits Let_def split: option.splits)

lemma failed_act: "failed d \<Longrightarrow> failed (diff_act getObject fetchContents d x)"
proof (cases x)
  case Cancel
  assume "failed d"
  with Cancel show ?thesis by (simp add: cancel_def)
next
  case (Settle i)
  assume "failed d"
  then have "failed (d\<lparr>pool := ts\<rparr>)" for ts by simp
  from failed_continue[OF this]
  have "failed (settled (continue getObject fetchContents (d\<lparr>pool := ts\<rparr>) t))" for ts t
    by (simp add: settled_def)
  with Settle \<open>failed d\<close> show ?thesis by simp
qed

lemma failed_stays: "failed d \<Longrightarrow> failed (foldl (diff_act getObject fetchContents) d later)"
  by (induction later arbitrary: d) (simp_all add: failed_act)

lemma rejects_continue:
  "rejects getObject fetchContents t \<Longrightarrow> continue getObject fetchContents d t = d\<lparr>failed := True\<rparr>"
  by (cases t) (auto split: option.splits if_splits)

lemma diff_run_append:
  "fetchDiff getObject fetchContents b c (acts @ later) =
     foldl (diff_act getObject fetchContents) (fetchDiff getObject fetchContents b c acts) later"
  by (simp add: fetchDiff_def)

lemma run_append:
  "fetchCommitAndParents repo r n (acts @ later) =
     foldl (act repo) (fetchCommitAndParents repo r n acts) later"
  by (simp add: fetchCommitAndParents_def)

text \<open>
  C7, amended. History Walker: when the store rejects the request the walker
  waits for, \<^verbatim>\<open>run()\<close> is rejected; no store call and no callback follows, whatever
  happens later, and \<^verbatim>\<open>onComplete\<close> has not been called. Tree Diff Engine: when the
  store rejects a request of a pending promise, \<^verbatim>\<open>run()\<close> is rejected and stays so;
  the continuation of that promise makes no store call (no retry), calls no callback
  and adds no record. The promises of the other fetches stay pending.
\<close>

theorem store_rejection:
  "(walker_rejects repo (fetchCommitAndParents repo r n acts) \<longrightarrow>
      pending (fetchCommitAndParents repo r n (acts @ Settle 0 # later)) = Rejected \<and>
      trace (fetchCommitAndParents repo r n (acts @ Settle 0 # later)) =
        trace (fetchCommitAndParents repo r n acts) \<and>
      OnComplete \<notin> set (trace (fetchCommitAndParents repo r n acts)))
   \<and>
   (i < length (pool (fetchDiff getObject fetchContents b c steps)) \<and>
    rejects getObject fetchContents (pool (fetchDiff getObject fetchContents b c steps) ! i) \<longrightarrow>
      failed (fetchDiff getObject fetchContents b c (steps @ Settle i # after)) \<and>
      trace (fetchDiff getObject fetchContents b c (steps @ [Settle i])) =
        trace (fetchDiff getObject fetchContents b c steps) \<and>
      stateChanges (fetchDiff getObject fetchContents b c (steps @ [Settle i])) =
        stateChanges (fetchDiff getObject fetchContents b c steps) \<and>
      pool (fetchDiff getObject fetchContents b c (steps @ [Settle i])) =
        take i (pool (fetchDiff getObject fetchContents b c steps)) @
        drop (Suc i) (pool (fetchDiff getObject fetchContents b c steps)))"
proof (intro conjI impI)
  let ?w = "fetchCommitAndParents repo r n acts"
  assume rej: "walker_rejects repo ?w"
  note s = walker_rejects_resume[OF rej]
  have "fetchCommitAndParents repo r n (acts @ Settle 0 # later) =
          foldl (act repo) (resume repo ?w) later"
    by (simp add: run_append)
  with rejected_stays[OF s(1), of repo later] s(2)
  show "pending (fetchCommitAndParents repo r n (acts @ Settle 0 # later)) = Rejected"
    and "trace (fetchCommitAndParents repo r n (acts @ Settle 0 # later)) = trace ?w"
    by simp_all
  from complete_once_run[of repo r n acts] s(3)
  show "OnComplete \<notin> set (trace ?w)" by (simp add: complete_once_def)
next
  let ?d = "fetchDiff getObject fetchContents b c steps"
  assume "i < length (pool ?d) \<and> rejects getObject fetchContents (pool ?d ! i)"
  then have i: "i < length (pool ?d)" and rej: "rejects getObject fetchContents (pool ?d ! i)"
    by simp_all
  have step: "fetchDiff getObject fetchContents b c (steps @ [Settle i]) =
      settled (?d\<lparr>pool := take i (pool ?d) @ drop (Suc i) (pool ?d), failed := True\<rparr>)"
    using i rejects_continue[OF rej] by (simp add: diff_run_append)
  then show "trace (fetchDiff getObject fetchContents b c (steps @ [Settle i])) = trace ?d"
    and "stateChanges (fetchDiff getObject fetchContents b c (steps @ [Settle i])) = stateChanges ?d"
    and "pool (fetchDiff getObject fetchContents b c (steps @ [Settle i])) =
           take i (pool ?d) @ drop (Suc i) (pool ?d)"
    by (simp_all add: settled_def)
  have "failed (fetchDiff getObject fetchContents b c (steps @ [Settle i]))"
    by (simp add: step settled_def)
  from failed_stays[OF this, of getObject fetchContents after]
  show "failed (fetchDiff getObject fetchContents b c (steps @ Settle i # after))"
    by (simp add: diff_run_append)
qed

lemma changes_addr2:
  "getChanges (Tree [Entry ''x'' ''x1'' False, Entry ''a'' ''a1'' False]) None =
   Some [Change ''x'' (Ent (Entry ''x'' ''x1'' False)) Undefined,
         Change ''a'' (Ent (Entry ''a'' ''a1'' False)) Undefined]"
  by code_simp

lemma lost_file_run:
  "pool (fetchDiff snapshots blobs_but_a1 ''addr2'' None [Settle 0]) =
     [Files None ''x'' (Ent (Entry ''x'' ''x1'' False)) Undefined,
      Files None ''a'' (Ent (Entry ''a'' ''a1'' False)) Undefined]"
  "trace (fetchDiff snapshots blobs_but_a1 ''addr2'' None [Settle 0]) =
     [GetObject ''addr2'', FetchContents (Entry ''x'' ''x1'' False),
      FetchContents (Entry ''a'' ''a1'' False)]"
  by (simp_all add: diff_defs snapshots_def changes_addr2)

theorem store_rejection_witness:
  "walker_rejects torn (fetchCommitAndParents torn ''A'' (- 1) [Settle 0])
   \<and> pending (fetchCommitAndParents torn ''A'' (- 1) ([Settle 0] @ Settle 0 # [Settle 0, Cancel])) = Rejected
   \<and> trace (fetchCommitAndParents torn ''A'' (- 1) ([Settle 0] @ Settle 0 # [Settle 0, Cancel])) =
       [GetObject ''A'', OnUpdate [Commit ''A'' [''B'', ''X''] 100], GetObject ''B'', GetObject ''X'']
   \<and> 1 < length (pool (fetchDiff snapshots blobs_but_a1 ''addr2'' None [Settle 0]))
   \<and> rejects snapshots blobs_but_a1 (pool (fetchDiff snapshots blobs_but_a1 ''addr2'' None [Settle 0]) ! 1)
   \<and> failed (fetchDiff snapshots blobs_but_a1 ''addr2'' None ([Settle 0] @ Settle 1 # [Settle 0]))
   \<and> trace (fetchDiff snapshots blobs_but_a1 ''addr2'' None ([Settle 0] @ [Settle 1])) =
       [GetObject ''addr2'', FetchContents (Entry ''x'' ''x1'' False),
        FetchContents (Entry ''a'' ''a1'' False)]"
proof -
  have w: "walker_rejects torn (fetchCommitAndParents torn ''A'' (- 1) [Settle 0])"
    and t: "trace (fetchCommitAndParents torn ''A'' (- 1) [Settle 0]) =
       [GetObject ''A'', OnUpdate [Commit ''A'' [''B'', ''X''] 100], GetObject ''B'', GetObject ''X'']"
    by (simp_all add: walker_rejects_def walker_defs torn_def)
  have d: "1 < length (pool (fetchDiff snapshots blobs_but_a1 ''addr2'' None [Settle 0])) \<and>
      rejects snapshots blobs_but_a1 (pool (fetchDiff snapshots blobs_but_a1 ''addr2'' None [Settle 0]) ! 1)"
    by (simp add: lost_file_run blobs_but_a1_def)
  from store_rejection[of torn "''A''" "- 1" "[Settle 0]" "[Settle 0, Cancel]"
      1 snapshots blobs_but_a1 "''addr2''" None "[Settle 0]" "[Settle 0]"]
  show ?thesis using w t d lost_file_run(2) by simp
qed

text \<open>
  C7 as stated fails for the diff engine: a fetch that was in flight when another
  one failed still ends with a call of \<^verbatim>\<open>onUpdate\<close>.
\<close>

theorem update_after_rejection:
  "failed (fetchDiff snapshots blobs_but_a1 ''addr2'' None [Settle 0, Settle 1])
   \<and> updates (trace (fetchDiff snapshots blobs_but_a1 ''addr2'' None [Settle 0, Settle 1])) = []
   \<and> updates (trace (fetchDiff snapshots blobs_but_a1 ''addr2'' None [Settle 0, Settle 1, Settle 0])) =
       [[DiffRec None ''x'' (Contents ''contents of x1'') (Skipped Undefined)]]"
  by (simp add: diff_defs snapshots_def blobs_but_a1_def changes_addr2)

section \<open>Cancellation\<close>

text \<open>
  What the flag does stop. A fetcher whose flag is false has \<^verbatim>\<open>fetchTrees\<close>,
  the callback of \<^verbatim>\<open>changes.map\<close> and \<^verbatim>\<open>processCommit\<close> return at once.
\<close>

lemma fetchTrees_idle: "\<not> running d \<Longrightarrow> fetchTrees d t1 t2 p = d"
  by (simp add: fetchTrees_def)

lemma visits_idle: "\<not> running d \<Longrightarrow> foldl (visit p) d cs = d"
  by (induction cs) (simp_all add: visit_def)

lemma continue_idle:
  assumes "\<not> running d"
  shows "\<not> running (continue getObject fetchContents d t)"
    and "trace (continue getObject fetchContents d t) = trace d"
  using assms by (cases t; auto simp: visits_idle Let_def split: option.splits)+

lemma diff_act_idle:
  assumes "\<not> running d"
  shows "\<not> running (diff_act getObject fetchContents d x)"
    and "trace (diff_act getObject fetchContents d x) = trace d"
proof -
  have "\<not> running (d\<lparr>pool := ts\<rparr>)" for ts using assms by simp
  note c = continue_idle[OF this]
  show "\<not> running (diff_act getObject fetchContents d x)"
    using assms c(1) by (cases x) (simp_all add: cancel_def settled_def)
  show "trace (diff_act getObject fetchContents d x) = trace d"
    using assms c(2) by (cases x) (simp_all add: cancel_def settled_def)
qed

text \<open>Once the flag is false the diff engine makes no store call and calls no callback.\<close>

lemma diff_cancelled_silent:
  "\<not> running d \<Longrightarrow> trace (foldl (diff_act getObject fetchContents) d later) = trace d"
proof (induction later arbitrary: d)
  case Nil
  then show ?case by simp
next
  case (Cons x xs)
  from diff_act_idle[OF Cons.prems, of getObject fetchContents x] Cons.IH
  show ?case by simp
qed

lemma diff_cancel_silences:
  "trace (fetchDiff getObject fetchContents b c (acts @ Cancel # later)) =
   trace (fetchDiff getObject fetchContents b c acts)"
proof -
  let ?d = "cancel (fetchDiff getObject fetchContents b c acts)"
  have "\<not> running ?d" by (simp add: cancel_def)
  from diff_cancelled_silent[OF this, of getObject fetchContents later]
  show ?thesis by (simp add: diff_run_append cancel_def)
qed

lemma processCommit_idle: "\<not> running w \<Longrightarrow> processCommit w c = fulfil w"
  by (simp add: processCommit_def)

lemma act_idle:
  assumes "\<not> running w"
  shows "\<not> running (act repo w x)"
    and "trace (act repo w x) = trace w \<or>
         trace (act repo w x) = trace w @ [OnComplete] \<and> pending (act repo w x) = Fulfilled"
proof -
  show "\<not> running (act repo w x)"
    using assms
    by (cases x)
       (auto simp: cancel_def resume_def processCommit_idle fulfil_def complete_def
          split: pending.splits option.splits list.splits)
  show "trace (act repo w x) = trace w \<or>
         trace (act repo w x) = trace w @ [OnComplete] \<and> pending (act repo w x) = Fulfilled"
    using assms
    by (cases x)
       (auto simp: cancel_def resume_def processCommit_idle fulfil_def complete_def
          split: pending.splits option.splits list.splits)
qed

text \<open>
  Once the flag is false the walker makes no store call and never calls
  \<^verbatim>\<open>onUpdate\<close>; the one event that can follow is a call of \<^verbatim>\<open>onComplete\<close>.
\<close>

lemma walker_cancelled_quiet:
  "\<not> running w \<Longrightarrow>
   trace (foldl (act repo) w later) = trace w \<or>
   trace (foldl (act repo) w later) = trace w @ [OnComplete]"
proof (induction later arbitrary: w)
  case Nil
  then show ?case by simp
next
  case (Cons x xs)
  note a = act_idle[OF Cons.prems, of repo x]
  from a(2) show ?case
  proof
    assume "trace (act repo w x) = trace w"
    with Cons.IH[OF a(1)] show ?thesis by simp
  next
    assume "trace (act repo w x) = trace w @ [OnComplete] \<and> pending (act repo w x) = Fulfilled"
    with fulfilled_stays[of "act repo w x" repo xs] a(1) show ?thesis by simp
  qed
qed

lemma walker_cancel_quiets:
  "trace (fetchCommitAndParents repo r n (acts @ Cancel # later)) =
     trace (fetchCommitAndParents repo r n acts) \<or>
   trace (fetchCommitAndParents repo r n (acts @ Cancel # later)) =
     trace (fetchCommitAndParents repo r n acts) @ [OnComplete]"
proof -
  let ?w = "cancel (fetchCommitAndParents repo r n acts)"
  have "\<not> running ?w" by (simp add: cancel_def)
  from walker_cancelled_quiet[OF this, of repo later]
  show ?thesis by (simp add: run_append cancel_def)
qed

text \<open>A cancel before anything has resolved: no callback at all, in either engine.\<close>

lemma root_cancelled:
  "pending w = AwaitRoot \<Longrightarrow> \<not> running w \<Longrightarrow> trace (foldl (act repo) w later) = trace w"
proof (induction later arbitrary: w)
  case Nil
  then show ?case by simp
next
  case (Cons x xs)
  show ?case
  proof (cases x)
    case Cancel
    with Cons show ?thesis by (simp add: cancel_idle)
  next
    case (Settle i)
    show ?thesis
    proof (cases "i = 0 \<and> repo (root w) \<noteq> None")
      case True
      then have "act repo w x = fulfil w"
        using Settle Cons.prems by (auto simp: resume_def processCommit_idle)
      moreover have "pending (fulfil w) = Fulfilled" "\<not> running (fulfil w)" "trace (fulfil w) = trace w"
        by (simp_all add: fulfil_def)
      ultimately show ?thesis using fulfilled_stays[of "fulfil w" repo xs] by simp
    next
      case False
      then have "act repo w x = w \<or> act repo w x = w\<lparr>pending := Rejected\<rparr>"
        using Settle Cons.prems by (auto simp: resume_def)
      then show ?thesis
      proof
        assume "act repo w x = w"
        with Cons show ?thesis by simp
      next
        assume "act repo w x = w\<lparr>pending := Rejected\<rparr>"
        with rejected_stays[of "w\<lparr>pending := Rejected\<rparr>" repo xs] show ?thesis by simp
      qed
    qed
  qed
qed

lemma walker_cancelled_at_once:
  "trace (fetchCommitAndParents repo r n (Cancel # later)) = [GetObject r]"
proof -
  let ?w = "cancel (start (constructor r n))"
  have "pending ?w = AwaitRoot" "\<not> running ?w" "trace ?w = [GetObject r]"
    by (simp_all add: cancel_def start_def constructor_def)
  with root_cancelled[of ?w repo later] show ?thesis
    by (simp add: fetchCommitAndParents_def)
qed

lemma diff_cancelled_at_once:
  "updates (trace (fetchDiff getObject fetchContents b c (Cancel # later))) = []"
proof -
  have "trace (fetchDiff getObject fetchContents b c ([] @ Cancel # later)) =
        trace (fetchDiff getObject fetchContents b c [])"
    by (rule diff_cancel_silences)
  then show ?thesis
    by (simp add: fetchDiff_def DiffFetcher_start_def DiffFetcher_constructor_def
        fetchTrees_def split: option.splits)
qed

section \<open>The changeset of trees with ordinary names\<close>

lemma find_SomeD: "find P xs = Some x \<Longrightarrow> x \<in> set xs \<and> P x"
  by (induction xs) (auto split: if_splits)

lemma entry_namedD:
  assumes "entry_named es n = Some e"
  shows "e \<in> set es" and "name e = n"
  using find_SomeD[OF assms[unfolded entry_named_def]] by simp_all

lemma byName_snoc:
  "byName (es @ [e]) =
     (if name e = ''__proto__'' then Table (own (byName es)) (Some e)
      else Table (AList.update (name e) e (own (byName es))) (prototype (byName es)))"
  by (simp add: byName_def)

lemma entry_named_snoc:
  "entry_named (es @ [e]) n = (if name e = n then Some e else entry_named es n)"
  by (simp add: entry_named_def)

text \<open>The key \<^verbatim>\<open>__proto__\<close> is never an own key of the table.\<close>

lemma byName_keys: "''__proto__'' \<notin> fst ` set (own (byName es))"
  by (induction es rule: rev_induct) (auto simp: byName_snoc byName_def dom_update)

lemma byName_distinct: "distinct (map fst (own (byName es)))"
  by (induction es rule: rev_induct) (auto simp: byName_snoc byName_def distinct_update)

lemma byName_plain:
  assumes "plain_names es"
  shows "prototype (byName es) = None" and "map_of (own (byName es)) = entry_named es"
proof -
  have "prototype (byName es) = None \<and> map_of (own (byName es)) = entry_named es"
    using assms
  proof (induction es rule: rev_induct)
    case Nil
    show ?case by (simp add: byName_def entry_named_def)
  next
    case (snoc e es)
    then have "name e \<noteq> ''__proto__''" and "plain_names es"
      by (auto simp: plain_names_def object_prototype_def)
    with snoc.IH show ?case
      by (auto simp: byName_snoc update_conv' entry_named_snoc fun_eq_iff)
  qed
  then show "prototype (byName es) = None" and "map_of (own (byName es)) = entry_named es"
    by simp_all
qed

lemma getprop_plain:
  "plain_names es \<Longrightarrow> n \<notin> set object_prototype \<Longrightarrow> getprop (byName es) n = side es n"
  by (simp add: getprop_def byName_plain side_def inherited_def split: option.splits)

lemma getprop_own:
  "map_of (own t) n = Some e \<Longrightarrow> getprop t n = Ent e"
  by (simp add: getprop_def)

lemma set_enumerate_own [simp]: "set (enumerate_own ps) = set ps"
  by (auto simp: enumerate_own_def)

lemma distinct_enumerate_own:
  assumes "distinct (map fst ps)"
  shows "distinct (map fst (enumerate_own ps))"
proof -
  let ?P = "\<lambda>p :: string \<times> 'a. array_index (fst p)"
  have 1: "distinct (map fst (filter ?P ps))" "distinct (map fst (filter (\<lambda>p. \<not> ?P p) ps))"
    using assms by (simp_all add: distinct_map_filter)
  from 1(1) have "distinct (map fst (sort_key (\<lambda>p. decimal (fst p)) (filter ?P ps)))"
    by (simp add: distinct_map)
  moreover have "fst ` set (filter ?P ps) \<inter> fst ` set (filter (\<lambda>p. \<not> ?P p) ps) = {}"
    by auto
  ultimately show ?thesis using 1(2) by (simp add: enumerate_own_def)
qed

text \<open>The first loop of \<^verbatim>\<open>getChanges\<close>, and the second.\<close>

lemma first_loop:
  "map_of (foldl (\<lambda>fs h. AList.update h (F h) fs) fs0 hs) n =
     (if n \<in> set hs then Some (F n) else map_of fs0 n)"
  by (induction hs arbitrary: fs0) (auto simp: update_conv')

lemma first_loop_distinct:
  "distinct (map fst fs0) \<Longrightarrow> distinct (map fst (foldl (\<lambda>fs h. AList.update h (F fs h) fs) fs0 hs))"
  by (induction hs arbitrary: fs0) (simp_all add: distinct_update)

lemma second_loop:
  assumes "\<forall>p\<in>set ps. p \<notin> set object_prototype"
  shows "map_of (foldl (\<lambda>fs p. AList.update p
                   (case fileset_get fs p of Some v \<Rightarrow> v | None \<Rightarrow> N p) fs) fs0 ps) n =
     (case map_of fs0 n of
        Some v \<Rightarrow> Some v
      | None \<Rightarrow> if n \<in> set ps then Some (N n) else None)"
  using assms
proof (induction ps arbitrary: fs0)
  case Nil
  show ?case by (simp split: option.splits)
next
  case (Cons p ps)
  let ?fs = "AList.update p (case fileset_get fs0 p of Some v \<Rightarrow> v | None \<Rightarrow> N p) fs0"
  have "map_of ?fs = (map_of fs0)(p \<mapsto> (case map_of fs0 p of Some v \<Rightarrow> v | None \<Rightarrow> N p))"
    using Cons.prems by (simp add: update_conv' fileset_get_def split: option.splits)
  with Cons.IH[of ?fs] Cons.prems show ?case
    by (auto split: option.splits)
qed

lemma keep_changes: "keep (map Chg cs) = Some (filter differs cs)"
  by (induction cs) simp_all

lemma all_changes:
  "\<forall>v\<in>set vs. \<exists>c. v = Chg c \<Longrightarrow> \<exists>cs. vs = map Chg cs"
proof (induction vs)
  case Nil
  then show ?case by simp
next
  case (Cons v vs)
  then obtain c cs where "v = Chg c" "vs = map Chg cs" by auto
  then have "v # vs = map Chg (c # cs)" by simp
  then show ?case by (rule exI)
qed

lemma names_of_changes:
  "map snd E = map Chg cs \<Longrightarrow> \<forall>p\<in>set E. \<forall>c. snd p = Chg c \<longrightarrow> cname c = fst p \<Longrightarrow>
   map cname cs = map fst E"
  by (induction E arbitrary: cs) auto

text \<open>
  The changeset of two trees none of whose entries is named like a member of
  \<^verbatim>\<open>Object.prototype\<close>: one element for every name that an entry of either tree
  has and whose sides differ, with the last entry of that name on each side, or
  \<^verbatim>\<open>undefined\<close>.
\<close>

lemma getChanges_plain:
  assumes "plain_names (files base)"
    and "plain_names (case comp' of None \<Rightarrow> [] | Some t \<Rightarrow> files t)"
  shows "\<exists>cs. getChanges base comp' = Some cs \<and> distinct (map cname cs) \<and>
           (\<forall>c. c \<in> set cs \<longleftrightarrow>
              (\<exists>n. (entry_named (files base) n \<noteq> None \<or>
                    entry_named (case comp' of None \<Rightarrow> [] | Some t \<Rightarrow> files t) n \<noteq> None) \<and>
                   c = Change n (side (files base) n)
                         (side (case comp' of None \<Rightarrow> [] | Some t \<Rightarrow> files t) n) \<and>
                   differs c))"
proof -
  let ?B = "files base" and ?P = "case comp' of None \<Rightarrow> [] | Some t \<Rightarrow> files t"
  let ?H = "byName ?B" and ?Q = "byName ?P"
  let ?F = "\<lambda>h. Chg (Change h (getprop ?H h) (getprop ?Q h))"
  let ?N = "\<lambda>p. Chg (Change p Undefined (getprop ?Q p))"
  let ?hs = "map fst (enumerate_own (own ?H))" and ?ps = "map fst (enumerate_own (own ?Q))"
  let ?fs1 = "foldl (\<lambda>fs h. AList.update h (?F h) fs) [] ?hs"
  let ?fs2 = "foldl (\<lambda>fs p. AList.update p
                   (case fileset_get fs p of Some v \<Rightarrow> v | None \<Rightarrow> ?N p) fs) ?fs1 ?ps"
  note b = byName_plain[OF assms(1)] and q = byName_plain[OF assms(2)]
  have hs: "n \<in> set ?hs \<longleftrightarrow> entry_named ?B n \<noteq> None" for n
    using b(2) by (simp add: dom_map_of_conv_image_fst[symmetric] dom_def)
  have ps: "n \<in> set ?ps \<longleftrightarrow> entry_named ?P n \<noteq> None" for n
    using q(2) by (simp add: dom_map_of_conv_image_fst[symmetric] dom_def)
  have named_plain: "n \<notin> set object_prototype" if "entry_named es n \<noteq> None" "plain_names es"
    for es n
  proof -
    from that(1) obtain e where "entry_named es n = Some e" by auto
    then have "e \<in> set es" "name e = n" by (rule entry_namedD)+
    with that(2) show ?thesis by (auto simp: plain_names_def list_all_iff)
  qed
  have ps_plain: "\<forall>p\<in>set ?ps. p \<notin> set object_prototype"
    using ps named_plain[OF _ assms(2)] by blast
  have gh: "getprop ?H n = side ?B n" "getprop ?Q n = side ?P n" if "n \<notin> set object_prototype" for n
    using that assms by (simp_all add: getprop_plain)
  have m1: "map_of ?fs1 n = (if n \<in> set ?hs then Some (?F n) else None)" for n
    by (simp add: first_loop)
  have m2: "map_of ?fs2 n =
      (if entry_named ?B n \<noteq> None \<or> entry_named ?P n \<noteq> None
       then Some (Chg (Change n (side ?B n) (side ?P n))) else None)" for n
  proof -
    have "map_of ?fs2 n =
        (case map_of ?fs1 n of Some v \<Rightarrow> Some v
         | None \<Rightarrow> if n \<in> set ?ps then Some (?N n) else None)"
      by (rule second_loop[OF ps_plain])
    also have "\<dots> = (if n \<in> set ?hs then Some (?F n)
                     else if n \<in> set ?ps then Some (?N n) else None)"
      by (simp add: m1)
    also have "\<dots> = (if entry_named ?B n \<noteq> None \<or> entry_named ?P n \<noteq> None
       then Some (Chg (Change n (side ?B n) (side ?P n))) else None)"
    proof (cases "entry_named ?B n \<noteq> None")
      case True
      with gh[OF named_plain[OF True assms(1)]] hs show ?thesis by simp
    next
      case False
      then have u: "side ?B n = Undefined" by (simp add: side_def)
      show ?thesis
      proof (cases "entry_named ?P n \<noteq> None")
        case True
        with gh(2)[OF named_plain[OF True assms(2)]] False hs ps u show ?thesis by simp
      next
        case False
        with \<open>\<not> entry_named ?B n \<noteq> None\<close> hs ps show ?thesis by simp
      qed
    qed
    finally show ?thesis .
  qed
  have d2: "distinct (map fst ?fs2)"
    by (intro first_loop_distinct) simp
  then have de: "distinct (map fst (enumerate_own ?fs2))" by (rule distinct_enumerate_own)
  have mem: "(n, v) \<in> set (enumerate_own ?fs2) \<longleftrightarrow> map_of ?fs2 n = Some v" for n v
    using d2 by simp
  have "\<forall>v\<in>set (map snd (enumerate_own ?fs2)). \<exists>c. v = Chg c"
    using mem m2 by (auto split: if_splits)
  from all_changes[OF this] obtain cs where cs: "map snd (enumerate_own ?fs2) = map Chg cs"
    by blast
  have gc: "getChanges base comp' = Some (filter differs cs)"
    unfolding getChanges_def Let_def cs by (rule keep_changes)
  have in_cs: "c \<in> set cs \<longleftrightarrow>
      (\<exists>n. (entry_named ?B n \<noteq> None \<or> entry_named ?P n \<noteq> None) \<and>
           c = Change n (side ?B n) (side ?P n))" for c
  proof -
    have "c \<in> set cs \<longleftrightarrow> Chg c \<in> set (map Chg cs)" by auto
    also have "\<dots> \<longleftrightarrow> (\<exists>n. (n, Chg c) \<in> set (enumerate_own ?fs2))"
      unfolding cs[symmetric] by force
    also have "\<dots> \<longleftrightarrow> (\<exists>n. map_of ?fs2 n = Some (Chg c))" by (simp only: mem)
    also have "\<dots> \<longleftrightarrow> (\<exists>n. (entry_named ?B n \<noteq> None \<or> entry_named ?P n \<noteq> None) \<and>
           c = Change n (side ?B n) (side ?P n))"
      by (auto simp: m2)
    finally show ?thesis .
  qed
  have "\<forall>p\<in>set (enumerate_own ?fs2). \<forall>c. snd p = Chg c \<longrightarrow> cname c = fst p"
    using mem m2 by (auto split: if_splits)
  from names_of_changes[OF cs this] de have "distinct (map cname cs)" by simp
  then have "distinct (map cname (filter differs cs))" by (rule distinct_map_filter)
  with gc in_cs show ?thesis by auto
qed

text \<open>
  With no comparison tree, every name of the base tree is in the changeset, its
  comparison side \<^verbatim>\<open>undefined\<close>.
\<close>

lemma getChanges_additions:
  assumes "plain_names (files base)"
  shows "\<exists>cs. getChanges base None = Some cs \<and> distinct (map cname cs) \<and>
           set cs = {Change n (Ent e) Undefined |n e. entry_named (files base) n = Some e}"
proof -
  from getChanges_plain[OF assms, of None] obtain cs
    where cs: "getChanges base None = Some cs" "distinct (map cname cs)"
      and m: "\<And>c. c \<in> set cs \<longleftrightarrow>
        (\<exists>n. (entry_named (files base) n \<noteq> None \<or> entry_named [] n \<noteq> None) \<and>
             c = Change n (side (files base) n) (side [] n) \<and> differs c)"
    by (auto simp: plain_names_def)
  have "set cs = {Change n (Ent e) Undefined |n e. entry_named (files base) n = Some e}"
    unfolding set_eq_iff m by (auto simp: side_def entry_named_def)
  with cs show ?thesis by blast
qed

text \<open>Two trees with the same entries have an empty changeset, whatever the names.\<close>

lemma second_loop_same:
  "\<forall>p\<in>set ps. map_of fs0 p \<noteq> None \<Longrightarrow>
   foldl (\<lambda>fs p. AList.update p (case fileset_get fs p of Some v \<Rightarrow> v | None \<Rightarrow> N p) fs) fs0 ps = fs0"
proof (induction ps)
  case Nil
  show ?case by simp
next
  case (Cons p ps)
  then obtain v where v: "map_of fs0 p = Some v" by auto
  then have "AList.update p (case fileset_get fs0 p of Some v \<Rightarrow> v | None \<Rightarrow> N p) fs0 = fs0"
    by (simp add: fileset_get_def update_triv)
  with Cons show ?case by simp
qed

lemma keep_same:
  "\<forall>v\<in>set vs. \<exists>h e. v = Chg (Change h (Ent e) (Ent e)) \<Longrightarrow> keep vs = Some []"
  by (induction vs) auto

lemma getChanges_same: "getChanges t (Some t) = Some []"
proof -
  let ?T = "byName (files t)"
  let ?F = "\<lambda>h. Chg (Change h (getprop ?T h) (getprop ?T h))"
  let ?N = "\<lambda>p. Chg (Change p Undefined (getprop ?T p))"
  let ?hs = "map fst (enumerate_own (own ?T))"
  let ?fs1 = "foldl (\<lambda>fs h. AList.update h (?F h) fs) [] ?hs"
  have m1: "map_of ?fs1 n = (if n \<in> set ?hs then Some (?F n) else None)" for n
    by (simp add: first_loop)
  then have "\<forall>p\<in>set ?hs. map_of ?fs1 p \<noteq> None" by simp
  from second_loop_same[OF this]
  have fs2: "foldl (\<lambda>fs p. AList.update p
               (case fileset_get fs p of Some v \<Rightarrow> v | None \<Rightarrow> ?N p) fs) ?fs1 ?hs = ?fs1" .
  have d1: "distinct (map fst ?fs1)" by (intro first_loop_distinct) simp
  have "\<exists>h e. v = Chg (Change h (Ent e) (Ent e))" if "v \<in> set (map snd (enumerate_own ?fs1))" for v
  proof -
    from that obtain n where "(n, v) \<in> set ?fs1" by auto
    with d1 have "map_of ?fs1 n = Some v" by simp
    with m1 have n: "n \<in> set ?hs" and v: "v = ?F n" by (auto split: if_splits)
    from n have "n \<in> fst ` set (own ?T)" by simp
    then obtain e where "map_of (own ?T) n = Some e"
      by (auto simp: dom_map_of_conv_image_fst[symmetric])
    then have "getprop ?T n = Ent e" by (rule getprop_own)
    with v show ?thesis by simp
  qed
  then have "keep (map snd (enumerate_own ?fs1)) = Some []" by (intro keep_same) blast
  then show ?thesis by (simp add: getChanges_def Let_def fs2)
qed

text \<open>
  So the diff of two trees with the same entries never calls \<^verbatim>\<open>onUpdate\<close> and
  leaves the result list empty.
\<close>

lemma same_trees_no_update:
  assumes "getObject b = Some t" and "getObject c = Some t" and "c \<noteq> []"
  shows "updates (trace (fetchDiff getObject fetchContents b (Some c) acts)) = [] \<and>
         stateChanges (fetchDiff getObject fetchContents b (Some c) acts) = []"
proof -
  let ?ok = "\<lambda>d. (pool d = [Trees b (Some c) None] \<or> pool d = []) \<and>
                  updates (trace d) = [] \<and> stateChanges d = []"
  have step: "?ok (diff_act getObject fetchContents d x)" if "?ok d" for d x
  proof (cases x)
    case Cancel
    with that show ?thesis by (simp add: cancel_def)
  next
    case (Settle i)
    show ?thesis
    proof (cases "i < length (pool d)")
      case False
      with Settle that show ?thesis by simp
    next
      case True
      with that have "pool d = [Trees b (Some c) None]" "i = 0" by auto
      with Settle that assms show ?thesis
        by (simp add: getChanges_same settled_def)
    qed
  qed
  have "?ok d \<Longrightarrow> ?ok (foldl (diff_act getObject fetchContents) d acts)" for d
  proof (induction acts arbitrary: d)
    case Nil
    then show ?case by simp
  next
    case (Cons x xs)
    from Cons.IH[OF step[OF Cons.prems, of x]] show ?case by simp
  qed
  moreover have "?ok (DiffFetcher_start (DiffFetcher_constructor b (Some c)))"
    using assms(3) by (simp add: DiffFetcher_start_def DiffFetcher_constructor_def fetchTrees_def)
  ultimately show ?thesis by (simp add: fetchDiff_def)
qed

text \<open>The trees of the scenario have ordinary names.\<close>

lemma plain_names_scenario:
  "plain_names [Entry ''foo.txt'' ''addr1'' False, Entry ''bar'' ''addr2'' True] \<and>
   (\<exists>cs. getChanges (Tree [Entry ''foo.txt'' ''addr1'' False, Entry ''bar'' ''addr2'' True]) None = Some cs \<and>
      set cs = {Change n (Ent e) Undefined |n e.
                  entry_named [Entry ''foo.txt'' ''addr1'' False, Entry ''bar'' ''addr2'' True] n = Some e})"
proof -
  have p: "plain_names (files (Tree [Entry ''foo.txt'' ''addr1'' False, Entry ''bar'' ''addr2'' True]))"
    by (simp add: plain_names_def object_prototype_def)
  from getChanges_additions[OF p] p show ?thesis by auto
qed

end
